theory Spec2Isabelle
  imports Main "HOL-Library.Multiset" "HOL-Library.Sublist" "HOL-Library.Char_ord"
    "HOL-Library.List_Lexorder"
    "HOL-Library.Product_Lexorder"
begin

section \<open>Operations and the pattern hash\<close>

text \<open>
  An operation is the triple \<open>(gate_name, qubits, params)\<close> produced by
  \<open>extract_operations_from_dag\<close>: the qubits are the decimal strings of the qubit
  indices, a parameter is either the float \<open>round(float(p), 6)\<close> or the string form of a
  symbolic parameter. The detector only copies the parameters into the list whose \<open>str\<close>
  is digested, so a float is kept as the text that \<open>str\<close> prints for it (\<open>0.5\<close>,
  \<open>-0.0\<close>, \<open>1e-05\<close>, \<open>nan\<close>, \<open>inf\<close>): two float parameters are the same to the hash
  exactly when they print alike, which keeps \<open>0.0\<close> and \<open>-0.0\<close> apart.
\<close>

datatype param = PFloat string | PStr string

type_synonym operation = "string \<times> string list \<times> param list"

definition gate_name :: "operation \<Rightarrow> string" where
  "gate_name g = fst g"

definition gate_qubits :: "operation \<Rightarrow> string list" where
  "gate_qubits g = fst (snd g)"

definition gate_params :: "operation \<Rightarrow> param list" where
  "gate_params g = snd (snd g)"

text \<open>
  \<open>hash_sequence\<close> builds the list \<open>normalized\<close> of
  \<open>(gate_name, tuple(sorted(qubits)), tuple(params))\<close> and returns
  \<open>hashlib.md5(str(normalized).encode()).hexdigest()\<close>. The library digest of the
  printed list is the parameter \<open>digest\<close>.
\<close>

definition normalize_op :: "operation \<Rightarrow> operation" where
  "normalize_op item = (gate_name item, sort (gate_qubits item), gate_params item)"

definition hash_sequence :: "(operation list \<Rightarrow> 'h) \<Rightarrow> operation list \<Rightarrow> 'h" where
  "hash_sequence digest seq = digest (map normalize_op seq)"

section \<open>Python helpers\<close>

datatype py_error = IndexError | KeyError

text \<open>\<open>xs[i:j]\<close> for indices that are not negative.\<close>

definition py_slice :: "'a list \<Rightarrow> nat \<Rightarrow> nat \<Rightarrow> 'a list" where
  "py_slice xs i j = take (j - i) (drop i xs)"

text \<open>
  \<open>sorted(xs, key=f, reverse=True)\<close>: a stable sort in descending key order, which
  CPython computes by reversing, sorting stably in ascending order and reversing again.
\<close>

definition py_sorted_rev :: "('a \<Rightarrow> 'k::linorder) \<Rightarrow> 'a list \<Rightarrow> 'a list" where
  "py_sorted_rev f xs = rev (sort_key f (rev xs))"

text \<open>\<open>d[k].append(v)\<close> on a \<open>defaultdict(list)\<close>, keys in insertion order.\<close>

fun dict_append :: "('k \<times> 'v list) list \<Rightarrow> 'k \<Rightarrow> 'v \<Rightarrow> ('k \<times> 'v list) list" where
  "dict_append [] k v = [(k, [v])]"
| "dict_append ((k', vs) # d) k v =
     (if k' = k then (k', vs @ [v]) # d else (k', vs) # dict_append d k v)"

section \<open>MacroGateDetector\<close>

record config =
  min_repetitions :: int
  max_window_size :: int

record pattern_info =
  pi_sequence :: "operation list"
  pi_positions :: "(int \<times> int) list"
  pi_window_size :: int
  pi_count :: int

subsection \<open>detect_patterns\<close>

text \<open>The inner loop over the start positions of the windows of one size.\<close>

definition window_patterns ::
  "(operation list \<Rightarrow> 'h) \<Rightarrow> operation list \<Rightarrow> nat \<Rightarrow> ('h \<times> (int \<times> int) list) list" where
  "window_patterns digest ops_sequence window_size =
     foldl (\<lambda>d i. dict_append d
              (hash_sequence digest (py_slice ops_sequence i (i + window_size)))
              (int i, int (i + window_size)))
       [] [0 ..< length ops_sequence + 1 - window_size]"

text \<open>
  The loop over \<open>window_patterns.items()\<close> that keeps the groups meeting the
  repetition threshold; \<open>positions[0]\<close> raises IndexError on an empty list.
\<close>

fun filter_patterns ::
  "config \<Rightarrow> operation list \<Rightarrow> nat \<Rightarrow> ('h \<times> pattern_info) list \<Rightarrow>
   ('h \<times> (int \<times> int) list) list \<Rightarrow> py_error + ('h \<times> pattern_info) list" where
  "filter_patterns cfg ops_sequence window_size all_patterns [] = Inr all_patterns"
| "filter_patterns cfg ops_sequence window_size all_patterns ((pattern_hash, positions) # rest) =
     (if int (length positions) \<ge> min_repetitions cfg then
        (if pattern_hash \<notin> fst ` set all_patterns then
           (case positions of
              [] \<Rightarrow> Inl IndexError
            | (s, e) # _ \<Rightarrow>
                filter_patterns cfg ops_sequence window_size
                  (all_patterns @
                    [(pattern_hash,
                      \<lparr> pi_sequence = py_slice ops_sequence (nat s) (nat e),
                        pi_positions = positions,
                        pi_window_size = int window_size,
                        pi_count = int (length positions) \<rparr>)])
                  rest)
         else filter_patterns cfg ops_sequence window_size all_patterns rest)
      else filter_patterns cfg ops_sequence window_size all_patterns rest)"

fun detect_loop ::
  "config \<Rightarrow> (operation list \<Rightarrow> 'h) \<Rightarrow> operation list \<Rightarrow> nat list \<Rightarrow>
   ('h \<times> pattern_info) list \<Rightarrow> py_error + ('h \<times> pattern_info) list" where
  "detect_loop cfg digest ops_sequence [] all_patterns = Inr all_patterns"
| "detect_loop cfg digest ops_sequence (window_size # sizes) all_patterns =
     (case filter_patterns cfg ops_sequence window_size all_patterns
             (window_patterns digest ops_sequence window_size) of
        Inl err \<Rightarrow> Inl err
      | Inr all_patterns' \<Rightarrow> detect_loop cfg digest ops_sequence sizes all_patterns')"

text \<open>\<open>range(2, min(max_window_size + 1, len(ops_sequence) // 2 + 1))\<close>\<close>

definition window_sizes :: "config \<Rightarrow> operation list \<Rightarrow> nat list" where
  "window_sizes cfg ops_sequence =
     [2 ..< nat (min (max_window_size cfg + 1) (int (length ops_sequence) div 2 + 1))]"

definition detect_patterns ::
  "config \<Rightarrow> (operation list \<Rightarrow> 'h) \<Rightarrow> operation list \<Rightarrow>
   py_error + ('h \<times> pattern_info) list" where
  "detect_patterns cfg digest ops_sequence =
     (case detect_loop cfg digest ops_sequence (window_sizes cfg ops_sequence) [] of
        Inl err \<Rightarrow> Inl err
      | Inr all_patterns \<Rightarrow>
          Inr (py_sorted_rev (\<lambda>x. (pi_count (snd x), pi_window_size (snd x))) all_patterns))"

subsection \<open>find_non_overlapping_macros\<close>

record 'h candidate =
  c_hash :: 'h
  c_sequence :: "operation list"
  c_start :: int
  c_end :: int
  c_window_size :: int
  c_size :: int

record 'h macro =
  m_hash :: 'h
  m_sequence :: "operation list"
  m_positions :: "(int \<times> int) list"
  m_count :: int
  m_window_size :: int

definition collect_candidates :: "('h \<times> pattern_info) list \<Rightarrow> 'h candidate list" where
  "collect_candidates patterns =
     concat (map (\<lambda>(pattern_hash, pattern_info).
               map (\<lambda>(s, e).
                     \<lparr> c_hash = pattern_hash,
                       c_sequence = pi_sequence pattern_info,
                       c_start = s,
                       c_end = e,
                       c_window_size = pi_window_size pattern_info,
                       c_size = e - s \<rparr>)
                 (pi_positions pattern_info))
             patterns)"

definition sort_candidates :: "'h candidate list \<Rightarrow> 'h candidate list" where
  "sort_candidates cs = py_sorted_rev (\<lambda>x. (c_size x, - c_start x)) cs"

definition ranges_overlap :: "int \<Rightarrow> int \<Rightarrow> int \<Rightarrow> int \<Rightarrow> bool" where
  "ranges_overlap start1 end1 start2 end2 = (\<not> (end1 \<le> start2 \<or> end2 \<le> start1))"

text \<open>
  One iteration of the greedy loop: the state is \<open>(selected_macros, used_ranges)\<close>.
\<close>

definition greedy_step ::
  "'h candidate list \<times> (int \<times> int) list \<Rightarrow> 'h candidate \<Rightarrow>
   'h candidate list \<times> (int \<times> int) list" where
  "greedy_step st cand =
     (let overlaps = list_ex (\<lambda>(used_start, used_end).
                        ranges_overlap (c_start cand) (c_end cand) used_start used_end) (snd st)
      in if \<not> overlaps
         then (fst st @ [cand], snd st @ [(c_start cand, c_end cand)])
         else st)"

definition greedy_select :: "'h candidate list \<Rightarrow> 'h candidate list \<times> (int \<times> int) list" where
  "greedy_select cs = foldl greedy_step ([], []) cs"

record macro_group =
  g_sequence :: "operation list"
  g_positions :: "(int \<times> int) list"
  g_window_size :: int

text \<open>The body of the loop that fills \<open>macros_by_hash\<close>.\<close>

fun group_add :: "('h \<times> macro_group) list \<Rightarrow> 'h candidate \<Rightarrow> ('h \<times> macro_group) list" where
  "group_add [] c =
     [(c_hash c, \<lparr> g_sequence = c_sequence c,
                   g_positions = [] @ [(c_start c, c_end c)],
                   g_window_size = c_window_size c \<rparr>)]"
| "group_add ((k, g) # d) c =
     (if k = c_hash c
      then (k, g\<lparr> g_positions := g_positions g @ [(c_start c, c_end c)] \<rparr>) # d
      else (k, g) # group_add d c)"

definition group_by_hash :: "'h candidate list \<Rightarrow> ('h \<times> macro_group) list" where
  "group_by_hash selected = foldl group_add [] selected"

definition final_macros :: "config \<Rightarrow> ('h \<times> macro_group) list \<Rightarrow> 'h macro list" where
  "final_macros cfg macros_by_hash =
     map (\<lambda>(hash_key, macro_info).
            \<lparr> m_hash = hash_key,
              m_sequence = g_sequence macro_info,
              m_positions = g_positions macro_info,
              m_count = int (length (g_positions macro_info)),
              m_window_size = g_window_size macro_info \<rparr>)
       (filter (\<lambda>(hash_key, macro_info).
                  int (length (g_positions macro_info)) \<ge> min_repetitions cfg)
          macros_by_hash)"

definition find_non_overlapping_macros ::
  "config \<Rightarrow> ('h \<times> pattern_info) list \<Rightarrow> 'h macro list" where
  "find_non_overlapping_macros cfg patterns =
     (let all_macro_candidates = sort_candidates (collect_candidates patterns);
          selected_macros = fst (greedy_select all_macro_candidates);
          macros_by_hash = group_by_hash selected_macros;
          macros = final_macros cfg macros_by_hash
      in py_sorted_rev (\<lambda>x. (m_count x, m_window_size x)) macros)"

text \<open>Step 3 of \<open>analyze_circuit\<close>: detection followed by selection.\<close>

definition detect_macros ::
  "config \<Rightarrow> (operation list \<Rightarrow> 'h) \<Rightarrow> operation list \<Rightarrow> py_error + 'h macro list" where
  "detect_macros cfg digest ops_sequence =
     (case detect_patterns cfg digest ops_sequence of
        Inl err \<Rightarrow> Inl err
      | Inr patterns \<Rightarrow> Inr (find_non_overlapping_macros cfg patterns))"

subsection \<open>Auxiliary notions for the statements\<close>

definition cand_range :: "'h candidate \<Rightarrow> int \<times> int" where
  "cand_range c = (c_start c, c_end c)"

definition non_overlapping :: "int \<times> int \<Rightarrow> int \<times> int \<Rightarrow> bool" where
  "non_overlapping r1 r2 = (\<not> ranges_overlap (fst r1) (snd r1) (fst r2) (snd r2))"

definition all_positions :: "('h \<times> macro_group) list \<Rightarrow> (int \<times> int) list" where
  "all_positions d = concat (map (\<lambda>x. g_positions (snd x)) d)"

definition group_ok :: "nat \<Rightarrow> nat \<Rightarrow> (int \<times> int) list \<Rightarrow> bool" where
  "group_ok w n ps =
     (ps \<noteq> [] \<and> sorted_wrt (\<lambda>a b. fst a < fst b) ps \<and>
      list_all (\<lambda>r. 0 \<le> fst r \<and> nat (fst r) < n \<and> snd r = fst r + int w) ps)"

definition pattern_ok :: "operation list \<Rightarrow> pattern_info \<Rightarrow> bool" where
  "pattern_ok ops info =
     (0 \<le> pi_window_size info \<and>
      group_ok (nat (pi_window_size info)) (length ops + 1 - nat (pi_window_size info))
        (pi_positions info) \<and>
      pi_count info = int (length (pi_positions info)) \<and>
      pi_sequence info =
        py_slice ops (nat (fst (hd (pi_positions info)))) (nat (snd (hd (pi_positions info)))))"

definition patterns_ok :: "config \<Rightarrow> operation list \<Rightarrow> ('h \<times> pattern_info) list \<Rightarrow> bool" where
  "patterns_ok cfg ops pats =
     (distinct (map fst pats) \<and>
      list_all (\<lambda>x. pattern_ok ops (snd x) \<and> min_repetitions cfg \<le> pi_count (snd x)) pats)"

definition group_of ::
  "'h candidate list \<Rightarrow> 'h \<Rightarrow> macro_group \<Rightarrow> bool" where
  "group_of sel k g =
     (g_positions g = map cand_range (filter (\<lambda>c. c_hash c = k) sel) \<and>
      list_ex (\<lambda>c. c_hash c = k \<and> g_sequence g = c_sequence c \<and>
                   g_window_size g = c_window_size c) sel)"

definition example_cfg :: config where
  "example_cfg = \<lparr> min_repetitions = 2, max_window_size = 8 \<rparr>"

definition example_ops :: "operation list" where
  "example_ops =
     [(''h'', [''0''], []), (''cx'', [''0'', ''1''], []), (''rz'', [''1''], [PFloat ''0.5'']),
      (''h'', [''0''], []), (''cx'', [''0'', ''1''], []), (''rz'', [''1''], [PFloat ''0.5'']),
      (''x'', [''0''], []),
      (''h'', [''0''], []), (''cx'', [''0'', ''1''], []),
      (''y'', [''0''], []),
      (''h'', [''0''], []), (''cx'', [''0'', ''1''], [])]"

definition example_patterns :: "(operation list \<times> pattern_info) list" where
  "example_patterns =
     [([(''h'', [''0''], []), (''cx'', [''0'', ''1''], [])],
       \<lparr> pi_sequence = [(''h'', [''0''], []), (''cx'', [''0'', ''1''], [])],
         pi_positions = [(0, 2), (3, 5), (7, 9), (10, 12)],
         pi_window_size = 2, pi_count = 4 \<rparr>),
      ([(''h'', [''0''], []), (''cx'', [''0'', ''1''], []), (''rz'', [''1''], [PFloat ''0.5''])],
       \<lparr> pi_sequence =
           [(''h'', [''0''], []), (''cx'', [''0'', ''1''], []), (''rz'', [''1''], [PFloat ''0.5''])],
         pi_positions = [(0, 3), (3, 6)], pi_window_size = 3, pi_count = 2 \<rparr>),
      ([(''cx'', [''0'', ''1''], []), (''rz'', [''1''], [PFloat ''0.5''])],
       \<lparr> pi_sequence = [(''cx'', [''0'', ''1''], []), (''rz'', [''1''], [PFloat ''0.5''])],
         pi_positions = [(1, 3), (4, 6)], pi_window_size = 2, pi_count = 2 \<rparr>)]"

definition example_macros :: "operation list macro list" where
  "example_macros =
     [\<lparr> m_hash = [(''h'', [''0''], []), (''cx'', [''0'', ''1''], []),
                  (''rz'', [''1''], [PFloat ''0.5''])],
        m_sequence = [(''h'', [''0''], []), (''cx'', [''0'', ''1''], []),
                      (''rz'', [''1''], [PFloat ''0.5''])],
        m_positions = [(0, 3), (3, 6)], m_count = 2, m_window_size = 3 \<rparr>,
      \<lparr> m_hash = [(''h'', [''0''], []), (''cx'', [''0'', ''1''], [])],
        m_sequence = [(''h'', [''0''], []), (''cx'', [''0'', ''1''], [])],
        m_positions = [(7, 9), (10, 12)], m_count = 2, m_window_size = 2 \<rparr>]"

section \<open>The graph builder\<close>

text \<open>\<open>str(i)\<close> for an index of \<open>range(num_qubits)\<close>.\<close>

definition digit_char :: "nat \<Rightarrow> char" where
  "digit_char d = char_of (48 + d)"

function str_nat :: "nat \<Rightarrow> string" where
  "str_nat n = (if n < 10 then [digit_char n] else str_nat (n div 10) @ [digit_char (n mod 10)])"
  by pat_completeness auto
termination
  by (relation "measure id") auto

declare str_nat.simps [simp del]

text \<open>
  The analysis result of \<open>analyze_circuit\<close>, with the fields the builders read. The
  \<open>compression_ratio\<close> is kept in hundredths.
\<close>

record flat_item =
  fi_position :: int
  fi_gate :: string
  fi_qubits :: "string list"

datatype hier_item =
    HGate string "string list" int
  | HMacro string int "(string \<times> string list) list" int int

record macro_def =
  md_label :: string
  md_count :: int
  md_window_size :: int
  md_gates :: "(string \<times> string list) list"
  md_positions :: "(int \<times> int) list"

record statistics =
  original_gates :: int
  transpiled_gates :: int
  circuit_depth :: int
  num_qubits :: int
  num_macros :: int
  total_macro_instances :: int
  hierarchical_items :: int
  compression_ratio :: int
  dag_nodes :: int
  dag_edges :: int

record analysis_result =
  dag_flat :: "flat_item list"
  dag_hierarchical :: "hier_item list"
  macros :: "macro_def list"
  statistics :: statistics

text \<open>
  Node identifiers are the strings \<open>q_start_{q}\<close>, \<open>gate_{pos}\<close> and \<open>q_end_{q}\<close>; the three
  forms are kept apart as constructors and printed by \<open>node_id_str\<close>.
\<close>

datatype node_id = QStart string | GateId int | QEnd string

definition str_int :: "int \<Rightarrow> string" where
  "str_int i = (if i < 0 then ''-'' @ str_nat (nat (- i)) else str_nat (nat i))"

fun node_id_str :: "node_id \<Rightarrow> string" where
  "node_id_str (QStart q) = ''q_start_'' @ q"
| "node_id_str (GateId pos) = ''gate_'' @ str_int pos"
| "node_id_str (QEnd q) = ''q_end_'' @ q"

datatype node_type = Init | Gate | End

record graph_node =
  n_id :: node_id
  n_name :: string
  n_type :: node_type
  n_position :: int
  n_qubits :: "string list"
  n_layer :: int

record graph_edge =
  e_name :: string
  e_from :: node_id
  e_to :: node_id
  e_qubit :: string

record macro_instance =
  mi_name :: string
  mi_gate_ids :: "node_id list"
  mi_nodes :: "(string \<times> string list) list"

record graph =
  nodes :: "graph_node list"
  edges :: "graph_edge list"
  graph_macros :: "macro_instance list"

record build_state =
  last_node_on_qubit :: "string \<rightharpoonup> node_id"
  node_layers :: "node_id \<rightharpoonup> int"
  max_gate_layer :: int
  output_nodes :: "graph_node list"
  output_edges :: "graph_edge list"

definition qubit_list :: "int \<Rightarrow> string list" where
  "qubit_list n = map str_nat [0 ..< nat n]"

subsection \<open>Init nodes\<close>

definition add_init_node :: "build_state \<Rightarrow> string \<Rightarrow> build_state" where
  "add_init_node st q =
     st\<lparr> output_nodes := output_nodes st @
            [\<lparr> n_id = QStart q, n_name = ''q'' @ q @ ''_init'', n_type = Init,
               n_position = - 1, n_qubits = [q], n_layer = - 1 \<rparr>],
         last_node_on_qubit := (last_node_on_qubit st)(q \<mapsto> QStart q),
         node_layers := (node_layers st)(QStart q \<mapsto> - 1) \<rparr>"

definition initial_state :: build_state where
  "initial_state =
     \<lparr> last_node_on_qubit = Map.empty, node_layers = Map.empty, max_gate_layer = 0,
       output_nodes = [], output_edges = [] \<rparr>"

definition add_init_nodes :: "string list \<Rightarrow> build_state" where
  "add_init_nodes qs = foldl add_init_node initial_state qs"

subsection \<open>Layers and edges\<close>

text \<open>The loop over the qubits of one node that collects its predecessors.\<close>

fun collect_predecessors ::
  "(string \<rightharpoonup> node_id) \<Rightarrow> (node_id \<rightharpoonup> int) \<Rightarrow> string list \<Rightarrow>
   (node_id \<times> string) list \<Rightarrow> int list \<Rightarrow> py_error + (node_id \<times> string) list \<times> int list" where
  "collect_predecessors last_on layers [] predecessor_nodes predecessor_layers =
     Inr (predecessor_nodes, predecessor_layers)"
| "collect_predecessors last_on layers (q # qs) predecessor_nodes predecessor_layers =
     (case last_on q of
        None \<Rightarrow> collect_predecessors last_on layers qs predecessor_nodes predecessor_layers
      | Some pred_id \<Rightarrow>
          if (pred_id, q) \<notin> set predecessor_nodes then
            (case layers pred_id of
               None \<Rightarrow> Inl KeyError
             | Some l \<Rightarrow> collect_predecessors last_on layers qs
                          (predecessor_nodes @ [(pred_id, q)]) (predecessor_layers @ [l]))
          else collect_predecessors last_on layers qs predecessor_nodes predecessor_layers)"

definition current_layer_of :: "int list \<Rightarrow> int" where
  "current_layer_of predecessor_layers =
     (case predecessor_layers of [] \<Rightarrow> 0 | l # ls \<Rightarrow> 1 + foldl max l ls)"

definition layer_step :: "build_state \<Rightarrow> graph_node \<Rightarrow> py_error + build_state" where
  "layer_step st node =
     (case collect_predecessors (last_node_on_qubit st) (node_layers st) (n_qubits node) [] [] of
        Inl err \<Rightarrow> Inl err
      | Inr (predecessor_nodes, predecessor_layers) \<Rightarrow>
          (let current_layer = current_layer_of predecessor_layers in
           Inr \<lparr> last_node_on_qubit =
                    foldl (\<lambda>m q. m(q \<mapsto> n_id node)) (last_node_on_qubit st) (n_qubits node),
                  node_layers = (node_layers st)(n_id node \<mapsto> current_layer),
                  max_gate_layer = max (max_gate_layer st) current_layer,
                  output_nodes = output_nodes st @ [node\<lparr> n_layer := current_layer \<rparr>],
                  output_edges = output_edges st @
                    map (\<lambda>(pred_id, q).
                           \<lparr> e_name = ''q'' @ q, e_from = pred_id, e_to = n_id node,
                             e_qubit = q \<rparr>) predecessor_nodes \<rparr>))"

fun layer_loop :: "build_state \<Rightarrow> graph_node list \<Rightarrow> py_error + build_state" where
  "layer_loop st [] = Inr st"
| "layer_loop st (node # hierarchical_nodes) =
     (case layer_step st node of
        Inl err \<Rightarrow> Inl err
      | Inr st' \<Rightarrow> layer_loop st' hierarchical_nodes)"

subsection \<open>End nodes\<close>

definition max_pos_of :: "graph_node list \<Rightarrow> int" where
  "max_pos_of hierarchical_nodes =
     (case map n_position hierarchical_nodes of [] \<Rightarrow> 0 | p # ps \<Rightarrow> foldl max p ps) + 1"

fun add_end_nodes ::
  "int \<Rightarrow> int \<Rightarrow> build_state \<Rightarrow> string list \<Rightarrow> py_error + build_state" where
  "add_end_nodes end_layer max_pos st [] = Inr st"
| "add_end_nodes end_layer max_pos st (q # qs) =
     (case last_node_on_qubit st q of
        None \<Rightarrow> Inl KeyError
      | Some pred_id \<Rightarrow>
          add_end_nodes end_layer max_pos
            (st\<lparr> output_nodes := output_nodes st @
                   [\<lparr> n_id = QEnd q, n_name = ''q'' @ q @ ''_end'', n_type = End,
                      n_position = max_pos, n_qubits = [q], n_layer = end_layer \<rparr>],
                 output_edges := output_edges st @
                   [\<lparr> e_name = ''q'' @ q, e_from = pred_id, e_to = QEnd q, e_qubit = q \<rparr>] \<rparr>)
            qs)"

text \<open>
  Steps 1, 3 and 4 of \<open>convert_to_app_circuit_format\<close>, which are steps 0, 2 and 2.5 of
  \<open>parse_circuit_dag\<close> line for line: from the qubit count and the list of gate nodes to
  the nodes and edges of the graph.
\<close>

definition build_nodes_and_edges :: "int \<Rightarrow> graph_node list \<Rightarrow> py_error + build_state" where
  "build_nodes_and_edges n hierarchical_nodes =
     (case layer_loop (add_init_nodes (qubit_list n)) hierarchical_nodes of
        Inl err \<Rightarrow> Inl err
      | Inr st \<Rightarrow>
          add_end_nodes (max_gate_layer st + 1) (max_pos_of hierarchical_nodes) st (qubit_list n))"

subsection \<open>Macro instances\<close>

definition gate_ids_in ::
  "(int \<rightharpoonup> node_id) \<Rightarrow> int \<Rightarrow> int \<Rightarrow> node_id list" where
  "gate_ids_in gate_position_to_id start end_pos =
     concat (map (\<lambda>pos. case gate_position_to_id pos of None \<Rightarrow> [] | Some i \<Rightarrow> [i])
               [start .. end_pos - 1])"

subsection \<open>convert_to_app_circuit_format\<close>

definition flat_gate_node :: "flat_item \<Rightarrow> graph_node" where
  "flat_gate_node item =
     \<lparr> n_id = GateId (fi_position item), n_name = fi_gate item, n_type = Gate,
       n_position = fi_position item, n_qubits = fi_qubits item, n_layer = 0 \<rparr>"

definition convert_macros :: "(int \<rightharpoonup> node_id) \<Rightarrow> macro_def list \<Rightarrow> macro_instance list" where
  "convert_macros gate_position_to_id ms =
     concat (map (\<lambda>macro_def.
        (let macro_instances =
               concat (map (\<lambda>(start, end_pos).
                  (let gate_ids = gate_ids_in gate_position_to_id start end_pos
                   in if gate_ids \<noteq> []
                      then [\<lparr> mi_name = md_label macro_def, mi_gate_ids = gate_ids,
                              mi_nodes = md_gates macro_def \<rparr>]
                      else []))
                 (md_positions macro_def))
         in if macro_instances = []
            then [\<lparr> mi_name = md_label macro_def, mi_gate_ids = [],
                    mi_nodes = md_gates macro_def \<rparr>]
            else macro_instances)) ms)"

definition convert_to_app_circuit_format :: "analysis_result \<Rightarrow> py_error + graph" where
  "convert_to_app_circuit_format analysis_result =
     (let hierarchical_nodes = map flat_gate_node (dag_flat analysis_result);
          gate_position_to_id =
            foldl (\<lambda>m item. m(fi_position item \<mapsto> GateId (fi_position item))) Map.empty
              (dag_flat analysis_result)
      in case build_nodes_and_edges (num_qubits (statistics analysis_result)) hierarchical_nodes of
           Inl err \<Rightarrow> Inl err
         | Inr st \<Rightarrow>
             Inr \<lparr> nodes = output_nodes st, edges = output_edges st,
                   graph_macros = convert_macros gate_position_to_id (macros analysis_result) \<rparr>)"

subsection \<open>parse_circuit_dag\<close>

fun hier_gate_nodes :: "hier_item list \<Rightarrow> graph_node list" where
  "hier_gate_nodes [] = []"
| "hier_gate_nodes (HGate name qubits pos # items) =
     \<lparr> n_id = GateId pos, n_name = name, n_type = Gate, n_position = pos, n_qubits = qubits,
       n_layer = 0 \<rparr> # hier_gate_nodes items"
| "hier_gate_nodes (HMacro label sz gates start end_pos # items) = hier_gate_nodes items"

definition parse_macros :: "(int \<rightharpoonup> node_id) \<Rightarrow> macro_def list \<Rightarrow> macro_instance list" where
  "parse_macros gate_position_to_id ms =
     concat (map (\<lambda>macro_def.
        map (\<lambda>(start, end_pos).
               \<lparr> mi_name = md_label macro_def,
                 mi_gate_ids = gate_ids_in gate_position_to_id start end_pos,
                 mi_nodes = md_gates macro_def \<rparr>)
          (md_positions macro_def)) ms)"

definition parse_circuit_dag :: "analysis_result \<Rightarrow> py_error + graph" where
  "parse_circuit_dag input_data =
     (let gate_position_to_id =
            foldl (\<lambda>m item. if fi_position item \<ge> 0
                             then m(fi_position item \<mapsto> GateId (fi_position item)) else m)
              Map.empty (dag_flat input_data);
          hierarchical_nodes = hier_gate_nodes (dag_hierarchical input_data)
      in case build_nodes_and_edges (num_qubits (statistics input_data)) hierarchical_nodes of
           Inl err \<Rightarrow> Inl err
         | Inr st \<Rightarrow>
             Inr \<lparr> nodes = output_nodes st, edges = output_edges st,
                   graph_macros = parse_macros gate_position_to_id (macros input_data) \<rparr>)"

subsection \<open>The sample input of the repository\<close>

definition input_data :: analysis_result where
  "input_data =
     \<lparr> dag_flat =
         [\<lparr> fi_position = 0, fi_gate = ''h'', fi_qubits = [''2''] \<rparr>,
          \<lparr> fi_position = 1, fi_gate = ''cx'', fi_qubits = [''1'', ''2''] \<rparr>,
          \<lparr> fi_position = 2, fi_gate = ''u3'', fi_qubits = [''2''] \<rparr>,
          \<lparr> fi_position = 3, fi_gate = ''cx'', fi_qubits = [''1'', ''2''] \<rparr>,
          \<lparr> fi_position = 4, fi_gate = ''h'', fi_qubits = [''1''] \<rparr>,
          \<lparr> fi_position = 5, fi_gate = ''u3'', fi_qubits = [''2''] \<rparr>,
          \<lparr> fi_position = 6, fi_gate = ''cx'', fi_qubits = [''0'', ''2''] \<rparr>,
          \<lparr> fi_position = 7, fi_gate = ''u3'', fi_qubits = [''2''] \<rparr>,
          \<lparr> fi_position = 8, fi_gate = ''cx'', fi_qubits = [''0'', ''2''] \<rparr>,
          \<lparr> fi_position = 9, fi_gate = ''cx'', fi_qubits = [''0'', ''1''] \<rparr>,
          \<lparr> fi_position = 10, fi_gate = ''u3'', fi_qubits = [''1''] \<rparr>,
          \<lparr> fi_position = 11, fi_gate = ''cx'', fi_qubits = [''0'', ''1''] \<rparr>,
          \<lparr> fi_position = 12, fi_gate = ''h'', fi_qubits = [''0''] \<rparr>,
          \<lparr> fi_position = 13, fi_gate = ''u3'', fi_qubits = [''1''] \<rparr>,
          \<lparr> fi_position = 14, fi_gate = ''u3'', fi_qubits = [''2''] \<rparr>],
       dag_hierarchical =
         [HGate ''h'' [''2''] 0,
          HGate ''cx'' [''1'', ''2''] 1,
          HGate ''u3'' [''2''] 2,
          HGate ''cx'' [''1'', ''2''] 3,
          HGate ''h'' [''1''] 4,
          HMacro ''EntanglingLayer(2<->0)'' 2 [(''u3'', [''2'']), (''cx'', [''0'', ''2''])] 5 7,
          HMacro ''EntanglingLayer(2<->0)'' 2 [(''u3'', [''2'']), (''cx'', [''0'', ''2''])] 7 9,
          HGate ''cx'' [''0'', ''1''] 9,
          HGate ''u3'' [''1''] 10,
          HGate ''cx'' [''0'', ''1''] 11,
          HGate ''h'' [''0''] 12,
          HGate ''u3'' [''1''] 13,
          HGate ''u3'' [''2''] 14],
       macros =
         [\<lparr> md_label = ''EntanglingLayer(2<->0)'', md_count = 2, md_window_size = 2,
            md_gates = [(''u3'', [''2'']), (''cx'', [''0'', ''2''])],
            md_positions = [(5, 7), (7, 9)] \<rparr>],
       statistics =
         \<lparr> original_gates = 15, transpiled_gates = 15, circuit_depth = 12, num_qubits = 3,
           num_macros = 1, total_macro_instances = 2, hierarchical_items = 13,
           compression_ratio = 115, dag_nodes = 21, dag_edges = 24 \<rparr> \<rparr>"

subsection \<open>Auxiliary notions for the statements about the graph\<close>

text \<open>\<open>int(q)\<close> for a string of decimal digits.\<close>

definition nat_of_digits :: "string \<Rightarrow> nat" where
  "nat_of_digits s = foldl (\<lambda>a c. 10 * a + (of_char c - 48)) 0 s"





text \<open>
  The identifiers and layers of the nodes of one type, in the order of the node list; the
  end layer of a qubit as the specification words it; an input without gates.
\<close>

definition id_layers :: "node_type \<Rightarrow> graph \<Rightarrow> (string \<times> int) list" where
  "id_layers t g =
     map (\<lambda>n. (node_id_str (n_id n), n_layer n)) (filter (\<lambda>n. n_type n = t) (nodes g))"










section \<open>SemanticLabeler\<close>

text \<open>
  \<open>collections.Counter\<close> of a list, as the dictionary it is: the keys in the order of their
  first occurrence, each with its number of occurrences; \<open>d.get(k, default)\<close> and \<open>k in d\<close>.
\<close>

definition py_unique :: "'a list \<Rightarrow> 'a list" where
  "py_unique xs = rev (remdups (rev xs))"

definition Counter :: "'a list \<Rightarrow> ('a \<times> nat) list" where
  "Counter xs = map (\<lambda>k. (k, count_list xs k)) (py_unique xs)"

definition dict_get :: "('k \<times> 'v) list \<Rightarrow> 'k \<Rightarrow> 'v \<Rightarrow> 'v" where
  "dict_get d k dflt = (case map_of d k of None \<Rightarrow> dflt | Some v \<Rightarrow> v)"

definition dict_in :: "'k \<Rightarrow> ('k \<times> 'v) list \<Rightarrow> bool" where
  "dict_in k d = (map_of d k \<noteq> None)"

text \<open>
  Qubits are strings. Of the branches that read a qubit as an integer only
  \<open>isinstance(q, str) and q.isdigit()\<close> applies to a string, and it adds \<open>int(q)\<close>; a string
  that is not made of digits is skipped (the fallback \<open>extract_qubit_index\<close> returns the text
  of the bound method \<open>str.index\<close>, which is no number). Strings are read as ASCII.
\<close>

definition py_isdigit :: "string \<Rightarrow> bool" where
  "py_isdigit s = (s \<noteq> [] \<and> list_all (\<lambda>c. c \<in> set ''0123456789'') s)"

definition qubit_int :: "string \<Rightarrow> nat option" where
  "qubit_int q = (if py_isdigit q then Some (nat_of_digits q) else None)"

text \<open>\<open>str.upper\<close> on ASCII.\<close>

definition py_upper :: "string \<Rightarrow> string" where
  "py_upper s =
     map (\<lambda>c. if CHR ''a'' \<le> c \<and> c \<le> CHR ''z'' then char_of (of_char c - (32 :: nat)) else c) s"

text \<open>\<open>max(items, key=f)\<close>: the first item whose key is maximal.\<close>

definition py_max_key :: "('a \<Rightarrow> nat) \<Rightarrow> 'a \<Rightarrow> 'a list \<Rightarrow> 'a" where
  "py_max_key f x xs = foldl (\<lambda>b a. if f b < f a then a else b) x xs"

record connectivity_info =
  connections :: "(nat \<times> nat) list"
  connection_counts :: "((nat \<times> nat) \<times> nat) list"
  is_linear :: bool
  is_star :: bool
  is_ring :: bool
  max_degree :: nat
  qubit_range :: "(nat \<times> nat) option"

record analysis =
  a_num_qubits :: nat
  num_gates :: nat
  gate_counts :: "(string \<times> nat) list"
  has_entanglement :: bool
  has_rotations :: bool
  has_hadamard :: bool
  is_single_qubit :: bool
  is_two_qubit :: bool
  connectivity :: connectivity_info
  qubits :: "nat list"
  gate_sequence :: "string list"

text \<open>The pairs \<open>(xs[i], xs[j])\<close> with \<open>i < j\<close>, in the order of the two nested loops.\<close>

fun index_pairs :: "'a list \<Rightarrow> ('a \<times> 'a) list" where
  "index_pairs [] = []"
| "index_pairs (x # xs) = map (\<lambda>y. (x, y)) xs @ index_pairs xs"

definition analyze_connectivity :: "operation list \<Rightarrow> connectivity_info" where
  "analyze_connectivity sequence =
     (let conns =
            concat (map (\<lambda>gate.
              if 2 \<le> length (gate_qubits gate)
              then map (\<lambda>(q1, q2). (min q1 q2, max q1 q2))
                     (index_pairs (List.map_filter qubit_int (gate_qubits gate)))
              else []) sequence);
          connection_counts = Counter conns;
          ends = concat (map (\<lambda>(a, b). [a, b]) conns);
          qubit_list = sort (remdups ends);
          qubit_degree = Counter ends;
          max_degree = (case map snd qubit_degree of [] \<Rightarrow> 0 | d # ds \<Rightarrow> foldl max d ds);
          is_linear = (max_degree \<le> 2 \<and> 2 < length qubit_list);
          is_star =
            (case qubit_degree of
               [] \<Rightarrow> False
             | x # xs \<Rightarrow>
                 if 2 < length qubit_list
                 then int (length qubit_list) - 1 \<le> int (snd (py_max_key snd x xs))
                 else False);
          is_ring = (3 \<le> length qubit_list \<and>
                     list_all (\<lambda>q. dict_get qubit_degree q 0 = 2) qubit_list);
          qubit_range =
            (case qubit_list of
               [] \<Rightarrow> None
             | q # qs \<Rightarrow> Some (foldl min q qs, foldl max q qs))
      in \<lparr> connections = map fst connection_counts, connection_counts = connection_counts,
           is_linear = is_linear, is_star = is_star, is_ring = is_ring,
           max_degree = max_degree, qubit_range = qubit_range \<rparr>)"

definition analyze_gate_sequence :: "operation list \<Rightarrow> analysis" where
  "analyze_gate_sequence sequence =
     (let gate_names = map gate_name sequence;
          all_qubits = remdups (List.map_filter qubit_int (concat (map gate_qubits sequence)));
          num_qubits = length all_qubits
      in \<lparr> a_num_qubits = num_qubits,
           num_gates = length sequence,
           gate_counts = Counter gate_names,
           has_entanglement = list_ex (\<lambda>g. g \<in> set [''cx'', ''cz'', ''cy'', ''swap'']) gate_names,
           has_rotations =
             list_ex (\<lambda>g. g \<in> set [''ry'', ''rz'', ''rx'', ''u1'', ''u2'', ''u3'']) gate_names,
           has_hadamard = list_ex (\<lambda>g. g = ''h'') gate_names,
           is_single_qubit = (num_qubits = 1),
           is_two_qubit = (num_qubits = 2),
           connectivity = analyze_connectivity sequence,
           qubits = sort all_qubits,
           gate_sequence = gate_names \<rparr>)"

text \<open>
  \<open>match_known_pattern\<close>. Its parameters \<open>earliest_position\<close> and \<open>total_circuit_length\<close> are
  not read. The ratios are quotients of two counts compared with the constants 0.3 and
  0.2; they are compared exactly, \<open>10 * cp_count > 3 * num_gates\<close> and
  \<open>5 * h_count > num_gates\<close>, which is what the floating point comparison gives for every
  sequence of fewer than \<open>10^15\<close> gates.
\<close>

definition rotation_types_of :: "operation list \<Rightarrow> string list" where
  "rotation_types_of sequence =
     filter (\<lambda>g. g \<in> set [''ry'', ''rz'', ''rx'']) (map gate_name sequence)"

definition rotation_count_of :: "(string \<times> nat) list \<Rightarrow> nat" where
  "rotation_count_of counts =
     sum_list (map (\<lambda>g. dict_get counts g 0) [''ry'', ''rz'', ''rx'', ''u1'', ''u2'', ''u3''])"

definition qft_rule :: "operation list \<Rightarrow> analysis \<Rightarrow> string option" where
  "qft_rule sequence analysis =
     (let gate_names = map gate_name sequence;
          gate_counts = gate_counts analysis;
          num_gates = length sequence;
          num_qubits = a_num_qubits analysis
      in if dict_in ''h'' gate_counts \<and> 2 \<le> num_qubits then
           (let cp_count = sum_list (map (\<lambda>g. dict_get gate_counts g 0)
                                       [''cp'', ''crz'', ''cu1'', ''cz'', ''p''])
            in if 1 \<le> dict_get gate_counts ''h'' 0 \<and> 0 < cp_count then
                 if (if 0 < num_gates then 3 * num_gates < 10 * cp_count else False) then
                   (let has_swaps = (0 < dict_get gate_counts ''swap'' 0);
                        early_h = list_ex (\<lambda>i. gate_names ! i = ''h'')
                                    [0 ..< min 3 (length gate_names)]
                    in if early_h
                       then Some (''QFT Circuit Segment'' @
                                  (if has_swaps then '' (with SWAP Layer)'' else ''''))
                       else None)
                 else None
               else None)
         else None)"

definition grover_rule :: "operation list \<Rightarrow> analysis \<Rightarrow> string option" where
  "grover_rule sequence analysis =
     (let gate_names = map gate_name sequence;
          gate_counts = gate_counts analysis;
          num_gates = length sequence;
          num_qubits = a_num_qubits analysis
      in if 2 \<le> num_qubits \<and> 3 \<le> length sequence then
           (let h_count = dict_get gate_counts ''h'' 0;
                cnot_count = dict_get gate_counts ''cx'' 0;
                cz_count = dict_get gate_counts ''cz'' 0
            in if 2 \<le> h_count \<and> (0 < cnot_count \<or> 0 < cz_count) then
                 (let starts_with_h = (hd gate_names = ''h'');
                      ends_with_h = (last gate_names = ''h'')
                  in if (starts_with_h \<or> ends_with_h) \<and>
                        (if 0 < num_gates then num_gates < 5 * h_count else False) then
                       (let has_phase =
                              list_ex (\<lambda>g. g \<in> set [''z'', ''cz'', ''cp'', ''crz'']) gate_names
                        in if has_phase \<or> num_qubits \<le> cnot_count
                           then Some ''Grover Diffusion/Oracle Block'' else None)
                     else None)
               else None)
         else None)"

definition other_rules :: "operation list \<Rightarrow> analysis \<Rightarrow> string option" where
  "other_rules sequence analysis =
     (let gate_counts = gate_counts analysis;
          num_qubits = a_num_qubits analysis
      in if list_all (\<lambda>gate. gate_name gate = ''cx'') sequence \<and> 2 \<le> length sequence then
           (if num_qubits = 2 then Some ''CNOT Pair''
            else if is_linear (connectivity analysis) then Some ''CNOT Chain''
            else Some ''CNOT Ladder'')
         else if list_all (\<lambda>gate. gate_name gate = ''swap'') sequence then Some ''Swap Network''
         else if list_all (\<lambda>gate. gate_name gate = ''h'') sequence \<and> 2 \<le> length sequence then
           (if length sequence = num_qubits then Some ''Hadamard Layer''
            else Some ''Hadamard Ladder'')
         else
           (let cnot_count = dict_get gate_counts ''cx'' 0;
                rotation_count = rotation_count_of gate_counts;
                rotation_types = rotation_types_of sequence
            in if 0 < cnot_count \<and> 0 < rotation_count \<and> rotation_types \<noteq> [] then
                 (let rot_type = py_upper (hd rotation_types)
                  in if cnot_count = 1 \<and> rotation_count = 1
                       then Some (rot_type @ '' Rotation Block'')
                     else if cnot_count = 2 \<and> rotation_count = 1
                       then Some (rot_type @ '' Rotation with CNOT Pair'')
                     else if 2 \<le> cnot_count \<and> 1 \<le> rotation_count
                       then Some (rot_type @ '' Rotation with Entangling Layer'')
                     else Some ''Rotation-Entangling Block'')
               else if 0 < rotation_count \<and> cnot_count = 0 \<and> rotation_types \<noteq> [] then
                 (let rot_type = py_upper (hd rotation_types)
                  in if length (remdups rotation_types) = 1
                     then Some (rot_type @ '' Rotation Block'')
                     else Some ''Mixed Rotation Block'')
               else
                 (let cz_count = dict_get gate_counts ''cz'' 0
                  in if 0 < cz_count \<and> cnot_count = 0
                     then (if 2 \<le> cz_count then Some ''CZ Ladder'' else Some ''CZ Gate'')
                     else None)))"

definition match_known_pattern :: "operation list \<Rightarrow> analysis \<Rightarrow> string option" where
  "match_known_pattern sequence analysis =
     (case qft_rule sequence analysis of
        Some label \<Rightarrow> Some label
      | None \<Rightarrow>
          (case grover_rule sequence analysis of
             Some label \<Rightarrow> Some label
           | None \<Rightarrow> other_rules sequence analysis))"

definition describe_multi_qubit_pattern :: "analysis \<Rightarrow> operation list \<Rightarrow> string" where
  "describe_multi_qubit_pattern analysis sequence =
     (let gate_counts = gate_counts analysis;
          connectivity = connectivity analysis;
          num_qubits = a_num_qubits analysis;
          cnot_count = dict_get gate_counts ''cx'' 0;
          rotation_count = rotation_count_of gate_counts;
          hadamard_count = dict_get gate_counts ''h'' 0;
          rotation_types = rotation_types_of sequence
      in if 0 < cnot_count \<and> rotation_count = 0 \<and> hadamard_count = 0 then
           (if num_qubits = 2 then ''Entangling Pair''
            else if is_linear connectivity then ''Linear Entangling Chain''
            else if is_star connectivity then ''Star Entangling Pattern''
            else if is_ring connectivity then ''Ring Entangling Pattern''
            else ''Entangling Block'')
         else if 0 < rotation_count \<and> rotation_types \<noteq> [] then
           (let rot_type = py_upper (hd rotation_types)
            in if 0 < cnot_count then
                 (if is_linear connectivity
                  then rot_type @ '' Rotation with Linear Entangling''
                  else rot_type @ '' Rotation with Entangling'')
               else rot_type @ '' Rotation Block'')
         else if 0 < hadamard_count \<and> 0 < cnot_count then ''Hadamard-Entangling Block''
         else if 3 \<le> num_qubits then ''Multi-Qubit Block''
         else if num_qubits = 2 then ''Two-Qubit Block''
         else ''Gate Block'')"

text \<open>
  \<open>label_macro\<close>. Its parameters \<open>macro\<close>, \<open>all_macros\<close> and \<open>total_circuit_length\<close> only feed
  \<open>earliest_position\<close> and the two parameters that \<open>match_known_pattern\<close> does not read.
\<close>

definition label_fallback :: "analysis \<Rightarrow> operation list \<Rightarrow> string" where
  "label_fallback analysis sequence =
     (if is_single_qubit analysis then
        (if has_rotations analysis then
           (case filter (\<lambda>g. gate_name g \<in> set [''ry'', ''rz'', ''rx'', ''u1'', ''u2'', ''u3''])
                     sequence of
              g # gs \<Rightarrow> py_upper (gate_name g) @ '' Rotation Block''
            | [] \<Rightarrow> ''Macro Block'')
         else if has_hadamard analysis then ''Hadamard Block''
         else ''Single Qubit Layer'')
      else if is_two_qubit analysis then
        (if has_entanglement analysis then
           (let gate_type = (case gate_sequence analysis of [] \<Rightarrow> ''ent'' | g # gs \<Rightarrow> g)
            in if gate_type = ''cx'' then ''CNOT Pair''
               else if gate_type = ''cz'' then ''CZ Pair''
               else ''Entangling Pair'')
         else if has_rotations analysis \<and> rotation_types_of sequence \<noteq> []
           then py_upper (hd (rotation_types_of sequence)) @ '' Rotation Pair''
         else ''Two-Qubit Block'')
      else if 2 < a_num_qubits analysis then describe_multi_qubit_pattern analysis sequence
      else if has_rotations analysis \<and> \<not> has_entanglement analysis then
        (case rotation_types_of sequence of
           [] \<Rightarrow> ''Rotation Block''
         | g # gs \<Rightarrow>
             if length (remdups (g # gs)) = 1 then py_upper g @ '' Rotation Block''
             else ''Mixed Rotation Block'')
      else ''Macro Block'')"

definition label_macro :: "operation list \<Rightarrow> string" where
  "label_macro sequence =
     (let analysis = analyze_gate_sequence sequence
      in case match_known_pattern sequence analysis of
           Some known_pattern \<Rightarrow>
             if known_pattern \<noteq> [] then known_pattern else label_fallback analysis sequence
         | None \<Rightarrow> label_fallback analysis sequence)"

text \<open>The conditions of the claim on a sequence, and the sequence it names.\<close>

definition phase_count :: "operation list \<Rightarrow> nat" where
  "phase_count sequence =
     length (filter (\<lambda>g. gate_name g \<in> set [''cp'', ''crz'', ''cu1'', ''cz'', ''p'']) sequence)"

definition has_early_h :: "operation list \<Rightarrow> bool" where
  "has_early_h sequence = (''h'' \<in> set (take 3 (map gate_name sequence)))"

definition qft_example :: "operation list" where
  "qft_example =
     [(''h'', [''0''], []), (''cp'', [''0'', ''1''], []), (''cp'', [''0'', ''2''], []),
      (''h'', [''1''], []), (''cp'', [''1'', ''2''], []), (''h'', [''2''], [])]"

definition single_qubit_example :: "operation list" where
  "single_qubit_example = [(''h'', [''0''], []), (''p'', [''0''], []), (''p'', [''0''], [])]"

section \<open>Properties of the selection\<close>

subsection \<open>Sorting\<close>

lemma mset_py_sorted_rev: "mset (py_sorted_rev f xs) = mset xs"
  by (simp add: py_sorted_rev_def)

lemma set_py_sorted_rev: "set (py_sorted_rev f xs) = set xs"
  by (simp add: py_sorted_rev_def)

lemma py_sorted_rev_descending:
  "sorted_wrt (\<lambda>a b. f a \<ge> f b) (py_sorted_rev f xs)"
proof -
  have "sorted (map f (sort_key f (rev xs)))" by simp
  then have "sorted_wrt (\<lambda>a b. f a \<le> f b) (sort_key f (rev xs))"
    by (simp add: sorted_wrt_map)
  then show ?thesis
    by (simp add: py_sorted_rev_def sorted_wrt_rev)
qed

lemma py_sorted_rev_stable:
  "filter (\<lambda>y. f y = k) (py_sorted_rev f xs) = filter (\<lambda>y. f y = k) xs"
  by (simp add: py_sorted_rev_def rev_filter [symmetric] sort_key_stable)

subsection \<open>Pairwise properties of lists\<close>

lemma sorted_wrt_sub_mset:
  assumes "symp R" "sorted_wrt R xs" "mset ys \<subseteq># mset xs"
  shows "sorted_wrt R ys"
  using assms
proof (induction ys arbitrary: xs)
  case Nil then show ?case by simp
next
  case (Cons y ys)
  have "y \<in> set xs" using Cons.prems(3) by (metis insert_subset_eq_iff mset.simps(2) set_mset_mset)
  then obtain as bs where xs: "xs = as @ y # bs" by (meson split_list)
  have sub: "mset ys \<subseteq># mset (as @ bs)" using Cons.prems(3) xs by (simp add: insert_subset_eq_iff)
  have sw: "sorted_wrt R (as @ bs)" using Cons.prems(2) xs by (auto simp: sorted_wrt_append)
  have "sorted_wrt R ys" using Cons.IH[OF Cons.prems(1) sw sub] .
  moreover have "\<forall>z \<in> set ys. R y z"
  proof
    fix z assume "z \<in> set ys"
    then have "z \<in> set (as @ bs)" using mset_subset_eqD[OF sub, of z] by simp
    then show "R y z" using Cons.prems(1,2) xs by (auto simp: sorted_wrt_append symp_def)
  qed
  ultimately show ?case by simp
qed

lemma sorted_wrt_subseq:
  "subseq xs ys \<Longrightarrow> sorted_wrt P ys \<Longrightarrow> sorted_wrt P xs"
proof (induction rule: list_emb.induct)
  case (list_emb_Cons2 x y xs ys)
  have "set xs \<subseteq> set ys" using list_emb_Cons2(2) by (auto elim: list_emb_set)
  then show ?case using list_emb_Cons2 by auto
qed auto

subsection \<open>The greedy scan\<close>

lemma non_overlapping_sym: "non_overlapping r1 r2 = non_overlapping r2 r1"
  by (auto simp: non_overlapping_def ranges_overlap_def)

lemma symp_non_overlapping: "symp non_overlapping"
  using non_overlapping_sym by (auto simp: symp_def)

lemma greedy_select_Nil: "greedy_select [] = ([], [])"
  by (simp add: greedy_select_def)

lemma greedy_select_snoc:
  "greedy_select (cs @ [c]) =
     (if \<forall>r \<in> set (snd (greedy_select cs)). non_overlapping (cand_range c) r
      then (fst (greedy_select cs) @ [c], snd (greedy_select cs) @ [cand_range c])
      else greedy_select cs)"
  by (auto simp: greedy_select_def greedy_step_def list_ex_iff non_overlapping_def
      cand_range_def Let_def split: prod.splits)

lemma greedy_select_used: "snd (greedy_select cs) = map cand_range (fst (greedy_select cs))"
  by (induction cs rule: rev_induct) (auto simp: greedy_select_Nil greedy_select_snoc)

lemma greedy_select_non_overlapping: "sorted_wrt non_overlapping (snd (greedy_select cs))"
proof (induction cs rule: rev_induct)
  case Nil then show ?case by (simp add: greedy_select_Nil)
next
  case (snoc c cs)
  then show ?case using non_overlapping_sym
    by (auto simp: greedy_select_snoc sorted_wrt_append)
qed

lemma greedy_select_subseq: "subseq (fst (greedy_select cs)) cs"
proof (induction cs rule: rev_induct)
  case Nil then show ?case by (simp add: greedy_select_Nil)
next
  case (snoc c cs)
  then show ?case by (auto simp: greedy_select_snoc intro: subseq_rev_drop_many)
qed

subsection \<open>Grouping\<close>

lemma mset_group_add:
  "mset (all_positions (group_add d c)) = mset (all_positions d) + {#cand_range c#}"
  by (induction d c rule: group_add.induct) (auto simp: all_positions_def cand_range_def)

lemma group_by_hash_snoc: "group_by_hash (cs @ [c]) = group_add (group_by_hash cs) c"
  by (simp add: group_by_hash_def)

lemma mset_group_by_hash:
  "mset (all_positions (group_by_hash cs)) = mset (map cand_range cs)"
  by (induction cs rule: rev_induct)
     (auto simp: group_by_hash_snoc mset_group_add, simp add: group_by_hash_def all_positions_def)

lemma mset_concat_filter:
  "mset (concat (map f (filter P xs))) \<subseteq># mset (concat (map f xs))"
  by (induction xs) (auto intro: subset_mset.add_increasing)

lemma mset_concat_map_cong:
  "mset xs = mset ys \<Longrightarrow> mset (concat (map f xs)) = mset (concat (map f ys))"
proof -
  assume a: "mset xs = mset ys"
  have "\<And>zs. mset (concat (map f zs)) = sum_mset (image_mset (\<lambda>x. mset (f x)) (mset zs))"
    by (induct_tac zs) auto
  then show ?thesis using a by simp
qed

lemma final_macros_positions:
  "concat (map m_positions (final_macros cfg d)) =
   concat (map (\<lambda>x. g_positions (snd x))
     (filter (\<lambda>(hash_key, macro_info). int (length (g_positions macro_info)) \<ge> min_repetitions cfg) d))"
  by (simp add: final_macros_def comp_def case_prod_beta)

lemma macro_positions_sub:
  "mset (concat (map m_positions (find_non_overlapping_macros cfg patterns)))
     \<subseteq># mset (snd (greedy_select (sort_candidates (collect_candidates patterns))))"
proof -
  let ?sel = "fst (greedy_select (sort_candidates (collect_candidates patterns)))"
  have "mset (concat (map m_positions (find_non_overlapping_macros cfg patterns)))
        = mset (concat (map m_positions (final_macros cfg (group_by_hash ?sel))))"
    by (simp add: find_non_overlapping_macros_def Let_def
        mset_concat_map_cong[OF mset_py_sorted_rev])
  also have "\<dots> \<subseteq># mset (all_positions (group_by_hash ?sel))"
    unfolding final_macros_positions all_positions_def by (rule mset_concat_filter)
  also have "\<dots> = mset (snd (greedy_select (sort_candidates (collect_candidates patterns))))"
    by (simp add: mset_group_by_hash greedy_select_used)
  finally show ?thesis .
qed

lemma covering_at_most_one:
  "sorted_wrt non_overlapping rs \<Longrightarrow> length (filter (\<lambda>r. fst r \<le> p \<and> p < snd r) rs) \<le> 1"
proof (induction rs)
  case Nil then show ?case by simp
next
  case (Cons r rs)
  show ?case
  proof (cases "fst r \<le> p \<and> p < snd r")
    case True
    have "filter (\<lambda>r. fst r \<le> p \<and> p < snd r) rs = []"
      using Cons.prems True by (auto simp: filter_empty_conv non_overlapping_def ranges_overlap_def)
    then show ?thesis using True by simp
  next
    case False then show ?thesis using Cons.IH Cons.prems by auto
  qed
qed

text \<open>
  Claim C3. In the list returned by \<open>find_non_overlapping_macros\<close>, for any pattern
  map, the position ranges of all macros taken together (two ranges of one macro as well
  as ranges of two different macros) are pairwise non-overlapping under the half-open
  test of \<open>ranges_overlap\<close>, and hence no index is covered by two of them.
\<close>

theorem C3_no_overlap:
  "sorted_wrt non_overlapping (concat (map m_positions (find_non_overlapping_macros cfg patterns)))
   \<and> (\<forall>p. length (filter (\<lambda>r. fst r \<le> p \<and> p < snd r)
              (concat (map m_positions (find_non_overlapping_macros cfg patterns)))) \<le> 1)"
proof -
  have "sorted_wrt non_overlapping
          (concat (map m_positions (find_non_overlapping_macros cfg patterns)))"
    by (rule sorted_wrt_sub_mset[OF symp_non_overlapping greedy_select_non_overlapping
          macro_positions_sub])
  then show ?thesis using covering_at_most_one by blast
qed

lemma dict_append_keys:
  "fst ` set (dict_append d k v) = insert k (fst ` set d)"
  by (induction d k v rule: dict_append.induct) auto

lemma dict_append_distinct:
  "distinct (map fst d) \<Longrightarrow> distinct (map fst (dict_append d k v))"
proof (induction d k v rule: dict_append.induct)
  case (2 k' vs d k v)
  then show ?case using dict_append_keys[of d k v] by auto
qed simp

lemma dict_append_groups:
  assumes "\<forall>x \<in> set d. group_ok w n (snd x)"
  shows "\<forall>x \<in> set (dict_append d k (int n, int (n + w))). group_ok w (Suc n) (snd x)"
  using assms
proof (induction d k "(int n, int (n + w))" rule: dict_append.induct)
  case (1 k)
  then show ?case by (simp add: group_ok_def)
next
  case (2 k' vs d k)
  have mono: "\<And>ps. group_ok w n ps \<Longrightarrow> group_ok w (Suc n) ps"
    by (auto simp: group_ok_def list_all_iff)
  have app: "group_ok w n vs \<Longrightarrow> group_ok w (Suc n) (vs @ [(int n, int (n + w))])"
    by (auto simp: group_ok_def list_all_iff sorted_wrt_append)
  show ?case using 2 mono app by auto
qed

lemma window_patterns_upto:
  "distinct (map fst (foldl (\<lambda>d i. dict_append d (f i) (int i, int (i + w))) [] [0..<n])) \<and>
   (\<forall>x \<in> set (foldl (\<lambda>d i. dict_append d (f i) (int i, int (i + w))) [] [0..<n]).
      group_ok w n (snd x))"
proof (induction n)
  case 0 then show ?case by simp
next
  case (Suc n)
  let ?d = "foldl (\<lambda>d i. dict_append d (f i) (int i, int (i + w))) [] [0..<n]"
  have step: "foldl (\<lambda>d i. dict_append d (f i) (int i, int (i + w))) [] [0..<Suc n]
              = dict_append ?d (f n) (int n, int (n + w))"
    by simp
  have d: "distinct (map fst ?d)" and g: "\<forall>x \<in> set ?d. group_ok w n (snd x)"
    using Suc by blast+
  show ?case unfolding step
    using dict_append_distinct[OF d] dict_append_groups[OF g] by blast
qed

lemma window_patterns_ok:
  "distinct (map fst (window_patterns digest ops w)) \<and>
   (\<forall>x \<in> set (window_patterns digest ops w). group_ok w (length ops + 1 - w) (snd x))"
  unfolding window_patterns_def by (rule window_patterns_upto)

lemma py_slice_length: "j \<le> length xs \<Longrightarrow> length (py_slice xs i j) = j - i"
  by (auto simp: py_slice_def)

lemma filter_patterns_ok:
  assumes "patterns_ok cfg ops all" "\<forall>x \<in> set groups. group_ok w (length ops + 1 - w) (snd x)"
  shows "\<exists>all'. filter_patterns cfg ops w all groups = Inr all' \<and> patterns_ok cfg ops all'
           \<and> (all = [] \<longrightarrow> groups = [] \<longrightarrow> all' = [])"
  using assms
proof (induction groups arbitrary: all)
  case Nil then show ?case by simp
next
  case (Cons grp groups)
  obtain h ps where grp: "grp = (h, ps)" by (cases grp)
  have gok: "group_ok w (length ops + 1 - w) ps" using Cons.prems(2) grp by simp
  then obtain s e rest where ps: "ps = (s, e) # rest" by (cases ps) (auto simp: group_ok_def)
  have rest: "\<forall>x \<in> set groups. group_ok w (length ops + 1 - w) (snd x)" using Cons.prems(2) by simp
  show ?case
  proof (cases "min_repetitions cfg \<le> int (length ps) \<and> h \<notin> fst ` set all")
    case True
    let ?info = "\<lparr> pi_sequence = py_slice ops (nat s) (nat e), pi_positions = ps,
                   pi_window_size = int w, pi_count = int (length ps) \<rparr>"
    have "pattern_ok ops ?info" using gok ps by (simp add: pattern_ok_def)
    then have "patterns_ok cfg ops (all @ [(h, ?info)])"
      using Cons.prems(1) True by (auto simp: patterns_ok_def)
    from Cons.IH[OF this rest] show ?thesis using True grp ps by auto
  next
    case False
    from Cons.IH[OF Cons.prems(1) rest] show ?thesis using False grp by auto
  qed
qed

lemma detect_loop_ok:
  assumes "patterns_ok cfg ops all"
  shows "\<exists>all'. detect_loop cfg digest ops sizes all = Inr all' \<and> patterns_ok cfg ops all'"
  using assms
proof (induction sizes arbitrary: all)
  case Nil then show ?case by simp
next
  case (Cons w sizes)
  from filter_patterns_ok[OF Cons.prems, of "window_patterns digest ops w" w] window_patterns_ok
  obtain all1 where a1: "filter_patterns cfg ops w all (window_patterns digest ops w) = Inr all1"
      "patterns_ok cfg ops all1" by blast
  from Cons.IH[OF a1(2)] a1(1) show ?case by simp
qed

lemma patterns_ok_sorted:
  "patterns_ok cfg ops pats \<Longrightarrow> patterns_ok cfg ops (py_sorted_rev f pats)"
proof -
  assume a: "patterns_ok cfg ops pats"
  have "mset (map fst (py_sorted_rev f pats)) = mset (map fst pats)"
    by (simp add: mset_py_sorted_rev)
  then have "distinct (map fst (py_sorted_rev f pats)) = distinct (map fst pats)"
    by (rule mset_eq_imp_distinct_iff)
  then show ?thesis using a by (simp add: patterns_ok_def list_all_iff set_py_sorted_rev)
qed

lemma detect_patterns_ok:
  "\<exists>pats. detect_patterns cfg digest ops = Inr pats \<and> patterns_ok cfg ops pats"
proof -
  have "patterns_ok cfg ops ([] :: ('a \<times> pattern_info) list)" by (simp add: patterns_ok_def)
  from detect_loop_ok[OF this, of digest "window_sizes cfg ops"]
  obtain all where "detect_loop cfg digest ops (window_sizes cfg ops) [] = Inr all"
    "patterns_ok cfg ops all" by blast
  then show ?thesis by (simp add: detect_patterns_def patterns_ok_sorted)
qed

subsection \<open>Candidates\<close>

lemma collect_candidates_mem:
  "c \<in> set (collect_candidates pats) \<Longrightarrow>
   \<exists>info. (c_hash c, info) \<in> set pats \<and> c_sequence c = pi_sequence info \<and>
          c_window_size c = pi_window_size info \<and> cand_range c \<in> set (pi_positions info) \<and>
          c_size c = c_end c - c_start c"
proof -
  assume "c \<in> set (collect_candidates pats)"
  then obtain p where p: "p \<in> set pats"
    "c \<in> set (map (\<lambda>(s, e). \<lparr> c_hash = fst p, c_sequence = pi_sequence (snd p),
                  c_start = s, c_end = e, c_window_size = pi_window_size (snd p),
                  c_size = e - s \<rparr>) (pi_positions (snd p)))"
    unfolding collect_candidates_def by (force simp: case_prod_beta)
  then obtain r where r: "r \<in> set (pi_positions (snd p))"
    "c = \<lparr> c_hash = fst p, c_sequence = pi_sequence (snd p),
          c_start = fst r, c_end = snd r, c_window_size = pi_window_size (snd p),
          c_size = snd r - fst r \<rparr>"
    by (force simp: case_prod_beta)
  have "(c_hash c, snd p) \<in> set pats" using p(1) r(2) by simp
  moreover have "cand_range c \<in> set (pi_positions (snd p))"
    using r by (simp add: cand_range_def)
  ultimately show ?thesis using r(2) by (intro exI[of _ "snd p"]) simp
qed

lemma collect_candidates_Cons:
  "collect_candidates ((h, info) # pats) =
     map (\<lambda>(s, e). \<lparr> c_hash = h, c_sequence = pi_sequence info, c_start = s, c_end = e,
                     c_window_size = pi_window_size info, c_size = e - s \<rparr>) (pi_positions info)
     @ collect_candidates pats"
  by (simp add: collect_candidates_def)

lemma filter_collect_other:
  "k \<notin> fst ` set pats \<Longrightarrow> filter (\<lambda>c. c_hash c = k) (collect_candidates pats) = []"
proof -
  assume a: "k \<notin> fst ` set pats"
  have "\<forall>c \<in> set (collect_candidates pats). c_hash c \<noteq> k"
  proof
    fix c assume "c \<in> set (collect_candidates pats)"
    from collect_candidates_mem[OF this] obtain info where "(c_hash c, info) \<in> set pats"
      by blast
    then have "c_hash c \<in> fst ` set pats" by force
    then show "c_hash c \<noteq> k" using a by auto
  qed
  then show ?thesis by (simp add: filter_empty_conv)
qed

lemma ranges_of_hash:
  "distinct (map fst pats) \<Longrightarrow> (k, info) \<in> set pats \<Longrightarrow>
   map cand_range (filter (\<lambda>c. c_hash c = k) (collect_candidates pats)) = pi_positions info"
proof (induction pats)
  case Nil then show ?case by simp
next
  case (Cons p pats)
  obtain h i where p: "p = (h, i)" by (cases p)
  show ?case
  proof (cases "h = k")
    case True
    then have "i = info" using Cons.prems p by (auto simp: image_iff)
    moreover have "k \<notin> fst ` set pats" using Cons.prems(1) p True by auto
    ultimately show ?thesis using p True
      by (simp add: collect_candidates_Cons filter_collect_other comp_def case_prod_beta
          cand_range_def)
  next
    case False
    then have "(k, info) \<in> set pats" using Cons.prems p by auto
    then show ?thesis using Cons p False
      by (simp add: collect_candidates_Cons filter_empty_conv case_prod_beta)
  qed
qed

subsection \<open>Groups of selected candidates\<close>

lemma group_add_keys: "fst ` set (group_add d c) = insert (c_hash c) (fst ` set d)"
  by (induction d c rule: group_add.induct) auto

lemma group_add_distinct:
  "distinct (map fst d) \<Longrightarrow> distinct (map fst (group_add d c))"
proof (induction d c rule: group_add.induct)
  case (2 k g d c)
  then show ?case using group_add_keys[of d c] by auto
qed simp

lemma group_add_map_of:
  "map_of (group_add d c) k =
     (if k = c_hash c then
        Some (case map_of d k of
                None \<Rightarrow> \<lparr> g_sequence = c_sequence c, g_positions = [cand_range c],
                          g_window_size = c_window_size c \<rparr>
              | Some g0 \<Rightarrow> g0\<lparr> g_positions := g_positions g0 @ [cand_range c] \<rparr>)
      else map_of d k)"
  by (induction d c rule: group_add.induct) (auto simp: cand_range_def)

lemma group_by_hash_char:
  "distinct (map fst (group_by_hash sel)) \<and>
   fst ` set (group_by_hash sel) = c_hash ` set sel \<and>
   (\<forall>k g. map_of (group_by_hash sel) k = Some g \<longrightarrow> group_of sel k g)"
proof (induction sel rule: rev_induct)
  case Nil
  then show ?case by (simp add: group_by_hash_def)
next
  case (snoc c sel)
  let ?d = "group_by_hash sel"
  have d: "distinct (map fst ?d)" and keys: "fst ` set ?d = c_hash ` set sel"
    and ih: "\<And>k g. map_of ?d k = Some g \<Longrightarrow> group_of sel k g"
    using snoc by blast+
  have "\<And>k g. map_of (group_add ?d c) k = Some g \<Longrightarrow> group_of (sel @ [c]) k g"
  proof -
    fix k g assume a: "map_of (group_add ?d c) k = Some g"
    show "group_of (sel @ [c]) k g"
    proof (cases "k = c_hash c")
      case False
      then have "map_of ?d k = Some g" using a by (simp add: group_add_map_of)
      from ih[OF this] show ?thesis using False by (auto simp: group_of_def list_ex_iff)
    next
      case True
      show ?thesis
      proof (cases "map_of ?d k")
        case None
        then have "k \<notin> c_hash ` set sel" using keys by (simp add: map_of_eq_None_iff)
        then have "filter (\<lambda>c. c_hash c = k) sel = []" by (auto simp: filter_empty_conv)
        then show ?thesis using a True None
          by (auto simp: group_add_map_of group_of_def list_ex_iff)
      next
        case (Some g0)
        from ih[OF Some] show ?thesis using a True Some
          by (auto simp: group_add_map_of group_of_def list_ex_iff)
      qed
    qed
  qed
  then show ?case using group_add_distinct[OF d, of c] group_add_keys[of ?d c] keys
    by (simp add: group_by_hash_snoc)
qed

lemma group_by_hash_mem:
  "(k, g) \<in> set (group_by_hash sel) \<Longrightarrow> group_of sel k g"
proof -
  assume a: "(k, g) \<in> set (group_by_hash sel)"
  have "distinct (map fst (group_by_hash sel))"
    by (rule conjunct1[OF group_by_hash_char])
  then have "map_of (group_by_hash sel) k = Some g" using a by simp
  then show ?thesis
    by (rule conjunct2[OF conjunct2[OF group_by_hash_char], rule_format])
qed

lemma final_macros_mem:
  "m \<in> set (final_macros cfg d) \<Longrightarrow>
   \<exists>g. (m_hash m, g) \<in> set d \<and> m_sequence m = g_sequence g \<and> m_positions m = g_positions g \<and>
       m_window_size m = g_window_size g \<and> m_count m = int (length (m_positions m)) \<and>
       min_repetitions cfg \<le> m_count m"
proof -
  assume "m \<in> set (final_macros cfg d)"
  then obtain x where x: "x \<in> set d" "min_repetitions cfg \<le> int (length (g_positions (snd x)))"
    "m = \<lparr> m_hash = fst x, m_sequence = g_sequence (snd x), m_positions = g_positions (snd x),
          m_count = int (length (g_positions (snd x))), m_window_size = g_window_size (snd x) \<rparr>"
    unfolding final_macros_def by (force simp: case_prod_beta)
  have "(m_hash m, snd x) \<in> set d" using x(1,3) by simp
  then show ?thesis using x(2,3) by (intro exI[of _ "snd x"]) simp
qed

lemma macro_mem:
  assumes "m \<in> set (find_non_overlapping_macros cfg pats)"
  shows "\<exists>g. group_of (fst (greedy_select (sort_candidates (collect_candidates pats)))) (m_hash m) g \<and>
           m_sequence m = g_sequence g \<and> m_positions m = g_positions g \<and>
           m_window_size m = g_window_size g \<and> m_count m = int (length (m_positions m)) \<and>
           min_repetitions cfg \<le> m_count m"
proof -
  from assms have "m \<in> set (final_macros cfg
      (group_by_hash (fst (greedy_select (sort_candidates (collect_candidates pats))))))"
    by (simp add: find_non_overlapping_macros_def Let_def set_py_sorted_rev)
  from final_macros_mem[OF this] obtain g where
    g: "(m_hash m, g) \<in> set (group_by_hash
          (fst (greedy_select (sort_candidates (collect_candidates pats)))))"
      "m_sequence m = g_sequence g" "m_positions m = g_positions g"
      "m_window_size m = g_window_size g" "m_count m = int (length (m_positions m))"
      "min_repetitions cfg \<le> m_count m"
    by auto
  have "group_of (fst (greedy_select (sort_candidates (collect_candidates pats)))) (m_hash m) g"
    by (rule group_by_hash_mem[OF g(1)])
  then show ?thesis using g(2-6) by (intro exI[of _ g]) simp
qed

lemma selected_mem:
  "c \<in> set (fst (greedy_select (sort_candidates (collect_candidates pats)))) \<Longrightarrow>
   c \<in> set (collect_candidates pats)"
proof -
  assume "c \<in> set (fst (greedy_select (sort_candidates (collect_candidates pats))))"
  then have "c \<in> set (sort_candidates (collect_candidates pats))"
    using greedy_select_subseq[of "sort_candidates (collect_candidates pats)"]
    by (auto elim: list_emb_set)
  then show ?thesis by (simp add: sort_candidates_def set_py_sorted_rev)
qed

lemma patterns_unique:
  "distinct (map fst pats) \<Longrightarrow> (k, i1) \<in> set pats \<Longrightarrow> (k, i2) \<in> set pats \<Longrightarrow> i1 = i2"
  by (rule eq_key_imp_eq_value)

text \<open>A returned macro belongs to exactly one detected pattern.\<close>

lemma macro_pattern:
  assumes "distinct (map fst pats)" "m \<in> set (find_non_overlapping_macros cfg pats)"
  shows "\<exists>info. (m_hash m, info) \<in> set pats \<and> m_sequence m = pi_sequence info \<and>
           m_window_size m = pi_window_size info \<and>
           subseq (m_positions m) (map cand_range (filter (\<lambda>c. c_hash c = m_hash m)
              (sort_candidates (collect_candidates pats)))) \<and>
           set (m_positions m) \<subseteq> set (pi_positions info) \<and>
           m_count m = int (length (m_positions m)) \<and> min_repetitions cfg \<le> m_count m"
proof -
  let ?cs = "sort_candidates (collect_candidates pats)"
  let ?sel = "fst (greedy_select ?cs)"
  from macro_mem[OF assms(2)] obtain g where g: "group_of ?sel (m_hash m) g"
    "m_sequence m = g_sequence g" "m_positions m = g_positions g"
    "m_window_size m = g_window_size g" "m_count m = int (length (m_positions m))"
    "min_repetitions cfg \<le> m_count m" by auto
  from g(1) obtain c where c: "c \<in> set ?sel" "c_hash c = m_hash m"
    "g_sequence g = c_sequence c" "g_window_size g = c_window_size c"
    by (auto simp: group_of_def list_ex_iff)
  from collect_candidates_mem[OF selected_mem[OF c(1)]] obtain info where
    info: "(m_hash m, info) \<in> set pats" "c_sequence c = pi_sequence info"
    "c_window_size c = pi_window_size info" using c(2) by auto
  have pos: "m_positions m = map cand_range (filter (\<lambda>c. c_hash c = m_hash m) ?sel)"
    using g(1,3) by (simp add: group_of_def)
  have sub: "subseq (m_positions m)
      (map cand_range (filter (\<lambda>c. c_hash c = m_hash m) ?cs))"
    unfolding pos by (intro subseq_map subseq_filter greedy_select_subseq)
  have inc: "set (m_positions m) \<subseteq> set (pi_positions info)"
  proof
    fix r assume "r \<in> set (m_positions m)"
    then obtain c' where c': "c' \<in> set ?sel" "c_hash c' = m_hash m" "r = cand_range c'"
      using pos by auto
    from collect_candidates_mem[OF selected_mem[OF c'(1)]] obtain info' where
      "(m_hash m, info') \<in> set pats" "cand_range c' \<in> set (pi_positions info')"
      using c'(2) by auto
    then show "r \<in> set (pi_positions info)"
      using patterns_unique[OF assms(1) info(1)] c'(3) by auto
  qed
  have "(m_hash m, info) \<in> set pats \<and> m_sequence m = pi_sequence info \<and>
        m_window_size m = pi_window_size info"
    using info g(2,4) c(3,4) by simp
  then show ?thesis using sub inc g(5,6) by (intro exI[of _ info]) simp
qed

lemma pattern_ok_positions:
  assumes "pattern_ok ops info"
  shows "pi_positions info \<noteq> []"
    and "sorted_wrt (\<lambda>a b. fst a < fst b) (pi_positions info)"
    and "\<forall>r \<in> set (pi_positions info). snd r - fst r = pi_window_size info"
    and "pi_count info = int (length (pi_positions info))"
  using assms by (auto simp: pattern_ok_def group_ok_def list_all_iff)

lemma pattern_ok_length:
  assumes "pattern_ok ops info"
  shows "int (length (pi_sequence info)) = pi_window_size info"
proof -
  let ?w = "nat (pi_window_size info)"
  let ?r = "hd (pi_positions info)"
  have ne: "pi_positions info \<noteq> []" using assms by (simp add: pattern_ok_def group_ok_def)
  then have "?r \<in> set (pi_positions info)" by simp
  then have r: "0 \<le> fst ?r" "nat (fst ?r) < length ops + 1 - ?w" "snd ?r = fst ?r + int ?w"
    using assms by (auto simp: pattern_ok_def group_ok_def list_all_iff)
  have w0: "0 \<le> pi_window_size info" using assms by (simp add: pattern_ok_def)
  have e: "nat (snd ?r) = nat (fst ?r) + ?w" using r(1,3) w0 by (simp add: nat_add_distrib)
  have "length (pi_sequence info) = nat (snd ?r) - nat (fst ?r)"
    using assms r(2) e by (simp add: pattern_ok_def py_slice_length)
  then have "length (pi_sequence info) = ?w" using e by simp
  then show ?thesis using w0 by simp
qed

lemma hash_candidates_sorted:
  assumes d: "distinct (map fst pats)" and mem: "(k, info) \<in> set pats"
    and ok: "pattern_ok ops info"
  shows "sorted_wrt (\<lambda>a b. fst a < fst b)
           (map cand_range (filter (\<lambda>c. c_hash c = k) (sort_candidates (collect_candidates pats))))"
proof -
  let ?cs = "sort_candidates (collect_candidates pats)"
  let ?F = "filter (\<lambda>c. c_hash c = k) ?cs"
  have "mset ?F = mset (filter (\<lambda>c. c_hash c = k) (collect_candidates pats))"
    by (simp add: sort_candidates_def mset_py_sorted_rev)
  then have "mset (map cand_range ?F)
      = mset (map cand_range (filter (\<lambda>c. c_hash c = k) (collect_candidates pats)))"
    by (metis mset_map)
  then have ms: "mset (map cand_range ?F) = mset (pi_positions info)"
    by (simp add: ranges_of_hash[OF d mem])
  have "sorted_wrt (<) (map fst (pi_positions info))"
    using pattern_ok_positions(2)[OF ok] by (simp add: sorted_wrt_map)
  then have "distinct (map fst (pi_positions info))" by (simp add: strict_sorted_iff)
  moreover have "mset (map fst (map cand_range ?F)) = mset (map fst (pi_positions info))"
    using ms by (metis mset_map)
  ultimately have dist: "distinct (map fst (map cand_range ?F))"
    using mset_eq_imp_distinct_iff by blast
  have size: "\<And>c. c \<in> set ?F \<Longrightarrow> c_size c = pi_window_size info"
  proof -
    fix c assume "c \<in> set ?F"
    then have c: "c \<in> set (collect_candidates pats)" "c_hash c = k"
      by (simp_all add: sort_candidates_def set_py_sorted_rev)
    from collect_candidates_mem[OF c(1)] obtain info' where
      i: "(c_hash c, info') \<in> set pats" "cand_range c \<in> set (pi_positions info')"
         "c_size c = c_end c - c_start c" by auto
    have "info' = info" using patterns_unique[OF d _ mem, of info'] i(1) c(2) by simp
    then show "c_size c = pi_window_size info"
      using i(2,3) pattern_ok_positions(3)[OF ok] by (auto simp: cand_range_def)
  qed
  have "sorted_wrt (\<lambda>a b. (c_size a, - c_start a) \<ge> (c_size b, - c_start b)) ?F"
    unfolding sort_candidates_def by (intro sorted_wrt_filter py_sorted_rev_descending)
  then have "sorted_wrt (\<lambda>a b. c_start a \<le> c_start b) ?F"
    by (rule sorted_wrt_mono_rel[rotated]) (auto simp: size)
  then have "sorted (map fst (map cand_range ?F))"
    by (simp add: sorted_wrt_map cand_range_def comp_def)
  then have "sorted_wrt (<) (map fst (map cand_range ?F))"
    using dist by (simp add: strict_sorted_iff)
  then show ?thesis by (simp add: sorted_wrt_map)
qed

lemma macro_of_detected:
  assumes ok: "patterns_ok cfg ops pats" and m: "m \<in> set (find_non_overlapping_macros cfg' pats)"
  shows "\<exists>info. (m_hash m, info) \<in> set pats \<and> pattern_ok ops info \<and>
           m_sequence m = pi_sequence info \<and> m_window_size m = pi_window_size info \<and>
           set (m_positions m) \<subseteq> set (pi_positions info) \<and>
           sorted_wrt (\<lambda>a b. fst a < fst b) (m_positions m) \<and>
           m_count m = int (length (m_positions m)) \<and> min_repetitions cfg' \<le> m_count m"
proof -
  have d: "distinct (map fst pats)" using ok by (simp add: patterns_ok_def)
  from macro_pattern[OF d m] obtain info where
    i: "(m_hash m, info) \<in> set pats" "m_sequence m = pi_sequence info"
       "m_window_size m = pi_window_size info"
       "subseq (m_positions m) (map cand_range (filter (\<lambda>c. c_hash c = m_hash m)
              (sort_candidates (collect_candidates pats))))"
       "set (m_positions m) \<subseteq> set (pi_positions info)"
       "m_count m = int (length (m_positions m))" "min_repetitions cfg' \<le> m_count m"
    by auto
  have pok: "pattern_ok ops info" using ok i(1) by (auto simp: patterns_ok_def list_all_iff)
  have "sorted_wrt (\<lambda>a b. fst a < fst b) (m_positions m)"
    by (rule sorted_wrt_subseq[OF i(4) hash_candidates_sorted[OF d i(1) pok]])
  then show ?thesis using i pok by (intro exI[of _ info]) simp
qed

lemma detect_patterns_Inr:
  "detect_patterns cfg digest ops = Inr pats \<Longrightarrow> patterns_ok cfg ops pats"
  using detect_patterns_ok[of cfg digest ops] by auto

lemma detect_macros_Inr:
  "detect_macros cfg digest ops = Inr ms \<Longrightarrow>
   \<exists>pats. detect_patterns cfg digest ops = Inr pats \<and>
          ms = find_non_overlapping_macros cfg pats"
  by (auto simp: detect_macros_def split: sum.splits)

text \<open>
  Claim C4. Every macro returned by \<open>detect_patterns\<close> followed by
  \<open>find_non_overlapping_macros\<close> has \<open>count = len(positions)\<close>,
  \<open>count \<ge> min_repetitions\<close>, and \<open>window_size = len(sequence) = end - start\<close> for
  every \<open>(start, end)\<close> of its positions.
\<close>

theorem C4_count_consistency:
  assumes "detect_macros cfg digest ops = Inr ms" and "m \<in> set ms"
  shows "m_count m = int (length (m_positions m)) \<and>
         min_repetitions cfg \<le> m_count m \<and>
         m_window_size m = int (length (m_sequence m)) \<and>
         list_all (\<lambda>r. snd r - fst r = m_window_size m) (m_positions m)"
proof -
  from detect_macros_Inr[OF assms(1)] obtain pats where
    p: "detect_patterns cfg digest ops = Inr pats" "ms = find_non_overlapping_macros cfg pats"
    by auto
  have m: "m \<in> set (find_non_overlapping_macros cfg pats)" using assms(2) p(2) by simp
  from macro_of_detected[OF detect_patterns_Inr[OF p(1)] m] obtain info where
    i: "pattern_ok ops info" "m_sequence m = pi_sequence info"
       "m_window_size m = pi_window_size info"
       "set (m_positions m) \<subseteq> set (pi_positions info)"
       "m_count m = int (length (m_positions m))" "min_repetitions cfg \<le> m_count m"
    by auto
  have "list_all (\<lambda>r. snd r - fst r = m_window_size m) (m_positions m)"
    using i(3,4) pattern_ok_positions(3)[OF i(1)] by (auto simp: list_all_iff)
  then show ?thesis using i(2,3,5,6) pattern_ok_length[OF i(1)] by simp
qed

lemma example_detect_patterns:
  "detect_patterns example_cfg (\<lambda>n. n) example_ops = Inr example_patterns"
  by code_simp

lemma example_find_macros:
  "find_non_overlapping_macros example_cfg example_patterns = example_macros"
  by code_simp

lemma example_detect_macros:
  "detect_macros example_cfg (\<lambda>n. n) example_ops = Inr example_macros"
  by (simp add: detect_macros_def example_detect_patterns example_find_macros)

lemma example_sorted_candidates:
  "map cand_range (sort_candidates (collect_candidates example_patterns)) =
     [(0, 3), (3, 6), (0, 2), (1, 3), (3, 5), (4, 6), (7, 9), (10, 12)]"
  by code_simp


theorem C4_count_consistency_witness:
  "detect_macros example_cfg (\<lambda>n. n) example_ops = Inr example_macros \<and>
   example_macros ! 1 \<in> set example_macros \<and>
   m_count (example_macros ! 1) = int (length (m_positions (example_macros ! 1))) \<and>
   min_repetitions example_cfg \<le> m_count (example_macros ! 1) \<and>
   m_window_size (example_macros ! 1) = int (length (m_sequence (example_macros ! 1))) \<and>
   list_all (\<lambda>r. snd r - fst r = m_window_size (example_macros ! 1))
     (m_positions (example_macros ! 1))"
proof -
  have m: "example_macros ! 1 \<in> set example_macros" by (simp add: example_macros_def)
  show ?thesis
    using C4_count_consistency[OF example_detect_macros m] example_detect_macros m
    by - (intro conjI; elim conjE; assumption)
qed

text \<open>
  Claim C1. The claim: two windows that are the same gate pattern on different physical
  qubits get the same pattern hash. The code puts the sorted qubit identifiers of every
  gate into the list that is digested, so the hash of \<open>cx\<close> on qubits 0, 1 and the hash of
  \<open>cx\<close> on qubits 2, 3 are the digests of two different lists.
\<close>

theorem C1_hash_depends_on_qubits:
  "hash_sequence digest [(''cx'', [''0'', ''1''], [])] = digest [(''cx'', [''0'', ''1''], [])] \<and>
   hash_sequence digest [(''cx'', [''2'', ''3''], [])] = digest [(''cx'', [''2'', ''3''], [])] \<and>
   hash_sequence (\<lambda>n. n) [(''cx'', [''0'', ''1''], [])]
     \<noteq> hash_sequence (\<lambda>n. n) [(''cx'', [''2'', ''3''], [])]"
  by (simp add: hash_sequence_def normalize_op_def gate_name_def gate_qubits_def gate_params_def)

text \<open>What the hash does ignore is the order of the qubits inside one gate.\<close>

lemma hash_sequence_qubit_order:
  assumes "mset qs = mset qs'"
  shows "hash_sequence digest (pre @ [(n, qs, ps)] @ post)
       = hash_sequence digest (pre @ [(n, qs', ps)] @ post)"
proof -
  have "sort qs' = sort qs"
    by (rule properties_for_sort) (simp_all add: assms)
  then show ?thesis
    by (simp add: hash_sequence_def normalize_op_def gate_name_def gate_qubits_def
        gate_params_def)
qed

text \<open>
  Claim C10. In every pattern of \<open>detect_patterns\<close> and every macro of
  \<open>find_non_overlapping_macros\<close> the positions are in strictly increasing order of start;
  the stored sequence is the slice of the input at the first detected occurrence of the
  pattern, which the macro inherits unchanged, its own positions being some of the
  pattern's.
\<close>

theorem C10_positions_sorted_template_first:
  assumes "detect_patterns cfg digest ops = Inr pats"
  shows "(\<forall>x \<in> set pats.
            pi_positions (snd x) \<noteq> [] \<and>
            sorted_wrt (\<lambda>a b. fst a < fst b) (pi_positions (snd x)) \<and>
            pi_sequence (snd x) =
              py_slice ops (nat (fst (hd (pi_positions (snd x)))))
                (nat (snd (hd (pi_positions (snd x)))))) \<and>
         (\<forall>m \<in> set (find_non_overlapping_macros cfg pats).
            sorted_wrt (\<lambda>a b. fst a < fst b) (m_positions m) \<and>
            (\<exists>info. (m_hash m, info) \<in> set pats \<and> m_sequence m = pi_sequence info \<and>
                    set (m_positions m) \<subseteq> set (pi_positions info)))"
proof -
  have ok: "patterns_ok cfg ops pats" by (rule detect_patterns_Inr[OF assms])
  have pk: "\<And>x. x \<in> set pats \<Longrightarrow> pattern_ok ops (snd x)"
    using ok by (simp add: patterns_ok_def list_all_iff)
  have a: "\<forall>x \<in> set pats.
            pi_positions (snd x) \<noteq> [] \<and>
            sorted_wrt (\<lambda>a b. fst a < fst b) (pi_positions (snd x)) \<and>
            pi_sequence (snd x) =
              py_slice ops (nat (fst (hd (pi_positions (snd x)))))
                (nat (snd (hd (pi_positions (snd x)))))"
  proof
    fix x assume "x \<in> set pats"
    from pk[OF this] show "pi_positions (snd x) \<noteq> [] \<and>
            sorted_wrt (\<lambda>a b. fst a < fst b) (pi_positions (snd x)) \<and>
            pi_sequence (snd x) =
              py_slice ops (nat (fst (hd (pi_positions (snd x)))))
                (nat (snd (hd (pi_positions (snd x)))))"
      by (simp add: pattern_ok_def group_ok_def)
  qed
  have b: "\<forall>m \<in> set (find_non_overlapping_macros cfg pats).
            sorted_wrt (\<lambda>a b. fst a < fst b) (m_positions m) \<and>
            (\<exists>info. (m_hash m, info) \<in> set pats \<and> m_sequence m = pi_sequence info \<and>
                    set (m_positions m) \<subseteq> set (pi_positions info))"
  proof
    fix m assume "m \<in> set (find_non_overlapping_macros cfg pats)"
    from macro_of_detected[OF ok this] obtain info where
      i: "(m_hash m, info) \<in> set pats" "m_sequence m = pi_sequence info"
         "set (m_positions m) \<subseteq> set (pi_positions info)"
         "sorted_wrt (\<lambda>a b. fst a < fst b) (m_positions m)" by auto
    show "sorted_wrt (\<lambda>a b. fst a < fst b) (m_positions m) \<and>
            (\<exists>info. (m_hash m, info) \<in> set pats \<and> m_sequence m = pi_sequence info \<and>
                    set (m_positions m) \<subseteq> set (pi_positions info))"
      using i by (intro conjI exI[of _ info]) simp_all
  qed
  show ?thesis using a b by (rule conjI)
qed

text \<open>
  On the example the macro of \<open>h, cx\<close> keeps the positions \<open>(7, 9)\<close> and \<open>(10, 12)\<close>,
  while its sequence is the slice at \<open>(0, 2)\<close>, the first detected occurrence, which the
  larger macro of \<open>h, cx, rz\<close> at \<open>(0, 3)\<close> has displaced.
\<close>

theorem C10_positions_sorted_template_first_witness:
  "detect_patterns example_cfg (\<lambda>n. n) example_ops = Inr example_patterns \<and>
   find_non_overlapping_macros example_cfg example_patterns = example_macros \<and>
   sorted_wrt (\<lambda>a b. fst a < fst b) (m_positions (example_macros ! 1)) \<and>
   m_positions (example_macros ! 1) = [(7, 9), (10, 12)] \<and>
   m_sequence (example_macros ! 1) = py_slice example_ops 0 2 \<and>
   hd (pi_positions (snd (example_patterns ! 0))) = (0, 2) \<and>
   (0, 2) \<notin> set (m_positions (example_macros ! 1))"
proof -
  have "sorted_wrt (\<lambda>a b. fst a < fst b) (m_positions (example_macros ! 1))"
    using C10_positions_sorted_template_first[OF example_detect_patterns]
    by (simp add: example_find_macros example_macros_def)
  moreover have "m_sequence (example_macros ! 1) = py_slice example_ops 0 2"
    by (simp add: example_macros_def example_ops_def py_slice_def)
  ultimately show ?thesis
    using example_detect_patterns example_find_macros
    by (simp add: example_macros_def example_patterns_def)
qed

lemma sort_candidates_order:
  "sorted_wrt (\<lambda>a b. c_size a > c_size b \<or> (c_size a = c_size b \<and> c_start a \<le> c_start b))
     (sort_candidates cs)"
proof -
  have "sorted_wrt (\<lambda>a b. (c_size a, - c_start a) \<ge> (c_size b, - c_start b))
          (sort_candidates cs)"
    unfolding sort_candidates_def by (rule py_sorted_rev_descending)
  then show ?thesis by (rule sorted_wrt_mono_rel[rotated]) auto
qed

lemma greedy_select_take_Suc:
  assumes "i < length cs"
  shows "greedy_select (take (Suc i) cs) =
     (if \<forall>r \<in> set (snd (greedy_select (take i cs))). non_overlapping (cand_range (cs ! i)) r
      then (fst (greedy_select (take i cs)) @ [cs ! i],
            snd (greedy_select (take i cs)) @ [cand_range (cs ! i)])
      else greedy_select (take i cs))"
  unfolding take_Suc_conv_app_nth[OF assms] by (rule greedy_select_snoc)

text \<open>
  Claim C2, as the code has it. The flattened candidates are sorted by descending size
  \<open>end - start\<close>, and among candidates of equal size the one with the smaller start comes
  first (the key \<open>(size, -start)\<close> is sorted in reverse). The greedy scan goes through
  the candidates in that order and accepts a candidate exactly when its range overlaps no
  range accepted before it, two ranges overlapping unless \<open>end1 \<le> start2\<close> or
  \<open>end2 \<le> start1\<close>; the macros are built from the accepted candidates.
\<close>

theorem C2_candidate_order_and_greedy_scan:
  "mset (sort_candidates (collect_candidates patterns)) = mset (collect_candidates patterns) \<and>
   (\<forall>c \<in> set (sort_candidates (collect_candidates patterns)). c_size c = c_end c - c_start c) \<and>
   sorted_wrt (\<lambda>a b. c_size a > c_size b \<or> (c_size a = c_size b \<and> c_start a \<le> c_start b))
     (sort_candidates (collect_candidates patterns)) \<and>
   greedy_select ([] :: 'h candidate list) = ([], []) \<and>
   (\<forall>i < length (sort_candidates (collect_candidates patterns)).
      greedy_select (take (Suc i) (sort_candidates (collect_candidates patterns))) =
        (if \<forall>r \<in> set (snd (greedy_select (take i (sort_candidates (collect_candidates patterns))))).
               \<not> ranges_overlap
                    (c_start (sort_candidates (collect_candidates patterns) ! i))
                    (c_end (sort_candidates (collect_candidates patterns) ! i)) (fst r) (snd r)
         then (fst (greedy_select (take i (sort_candidates (collect_candidates patterns))))
                 @ [sort_candidates (collect_candidates patterns) ! i],
               snd (greedy_select (take i (sort_candidates (collect_candidates patterns))))
                 @ [(c_start (sort_candidates (collect_candidates patterns) ! i),
                     c_end (sort_candidates (collect_candidates patterns) ! i))])
         else greedy_select (take i (sort_candidates (collect_candidates patterns))))) \<and>
   (\<forall>s1 e1 s2 e2. ranges_overlap s1 e1 s2 e2 = (\<not> (e1 \<le> s2 \<or> e2 \<le> s1))) \<and>
   find_non_overlapping_macros cfg (patterns :: ('h \<times> pattern_info) list) =
     py_sorted_rev (\<lambda>x. (m_count x, m_window_size x))
       (final_macros cfg (group_by_hash
          (fst (greedy_select (sort_candidates (collect_candidates patterns))))))"
proof -
  let ?cs = "sort_candidates (collect_candidates patterns)"
  have a: "mset ?cs = mset (collect_candidates patterns)"
    by (simp add: sort_candidates_def mset_py_sorted_rev)
  have b: "\<forall>c \<in> set ?cs. c_size c = c_end c - c_start c"
  proof
    fix c assume "c \<in> set ?cs"
    then have "c \<in> set (collect_candidates patterns)"
      by (simp add: sort_candidates_def set_py_sorted_rev)
    from collect_candidates_mem[OF this] show "c_size c = c_end c - c_start c" by auto
  qed
  have c: "sorted_wrt (\<lambda>a b. c_size a > c_size b \<or> (c_size a = c_size b \<and> c_start a \<le> c_start b)) ?cs"
    by (rule sort_candidates_order)
  have d: "greedy_select ([] :: 'h candidate list) = ([], [])" by (rule greedy_select_Nil)
  have e: "\<forall>i < length ?cs.
      greedy_select (take (Suc i) ?cs) =
        (if \<forall>r \<in> set (snd (greedy_select (take i ?cs))).
               \<not> ranges_overlap (c_start (?cs ! i)) (c_end (?cs ! i)) (fst r) (snd r)
         then (fst (greedy_select (take i ?cs)) @ [?cs ! i],
               snd (greedy_select (take i ?cs)) @ [(c_start (?cs ! i), c_end (?cs ! i))])
         else greedy_select (take i ?cs))"
    using greedy_select_take_Suc[of _ ?cs]
    by (simp add: non_overlapping_def cand_range_def)
  have f: "\<forall>s1 e1 s2 e2. ranges_overlap s1 e1 s2 e2 = (\<not> (e1 \<le> s2 \<or> e2 \<le> s1))"
    by (simp add: ranges_overlap_def)
  have g: "find_non_overlapping_macros cfg patterns =
     py_sorted_rev (\<lambda>x. (m_count x, m_window_size x))
       (final_macros cfg (group_by_hash (fst (greedy_select ?cs))))"
    by (simp add: find_non_overlapping_macros_def Let_def)
  show ?thesis using a b c d e f g by (intro conjI)
qed

lemma example_selected:
  "map cand_range (fst (greedy_select (sort_candidates (collect_candidates example_patterns))))
     = [(0, 3), (3, 6), (7, 9), (10, 12)]"
  by code_simp

theorem C2_candidate_order_and_greedy_scan_witness:
  "map cand_range (sort_candidates (collect_candidates example_patterns)) =
     [(0, 3), (3, 6), (0, 2), (1, 3), (3, 5), (4, 6), (7, 9), (10, 12)] \<and>
   sorted_wrt (\<lambda>a b. c_size a > c_size b \<or> (c_size a = c_size b \<and> c_start a \<le> c_start b))
     (sort_candidates (collect_candidates example_patterns)) \<and>
   map cand_range (fst (greedy_select (sort_candidates (collect_candidates example_patterns))))
     = [(0, 3), (3, 6), (7, 9), (10, 12)] \<and>
   find_non_overlapping_macros example_cfg example_patterns = example_macros"
  using C2_candidate_order_and_greedy_scan[of example_patterns example_cfg]
    example_sorted_candidates example_selected example_find_macros
  by - (intro conjI; elim conjE; assumption)

theorem C2_larger_start_first_counterexample:
  "\<not> sorted_wrt (\<lambda>a b. c_size a > c_size b \<or> (c_size a = c_size b \<and> c_start a \<ge> c_start b))
       (sort_candidates (collect_candidates example_patterns))"
  by code_simp

subsection \<open>A repetition threshold below one\<close>

lemma dict_append_not_Nil: "dict_append d k v \<noteq> []"
  by (induction d k v rule: dict_append.induct) (auto split: if_splits)

lemma window_patterns_not_Nil:
  assumes "window_size \<le> length ops_sequence"
  shows "window_patterns digest ops_sequence window_size \<noteq> []"
proof -
  obtain n where n: "length ops_sequence + 1 - window_size = Suc n"
    using assms by (cases "length ops_sequence + 1 - window_size") auto
  show ?thesis
    unfolding window_patterns_def n by (simp add: dict_append_not_Nil)
qed

lemma filter_patterns_grows:
  "filter_patterns cfg ops w all groups = Inr all' \<Longrightarrow> length all \<le> length all'"
proof (induction groups arbitrary: all)
  case Nil
  then show ?case by simp
next
  case (Cons grp groups)
  obtain h ps where grp: "grp = (h, ps)" by (cases grp)
  show ?case
  proof (cases "min_repetitions cfg \<le> int (length ps)")
    case False
    then have "filter_patterns cfg ops w all groups = Inr all'"
      using Cons.prems grp by simp
    from Cons.IH[OF this] show ?thesis .
  next
    case le: True
    show ?thesis
    proof (cases "h \<in> fst ` set all")
      case True
      then have "filter_patterns cfg ops w all groups = Inr all'"
        using Cons.prems grp le by simp
      from Cons.IH[OF this] show ?thesis .
    next
      case False
      show ?thesis
      proof (cases ps)
        case Nil
        then show ?thesis using Cons.prems grp le False by simp
      next
        case (Cons r rest)
        obtain s e where r: "r = (s, e)" by (cases r)
        let ?all1 = "all @ [(h, \<lparr> pi_sequence = py_slice ops (nat s) (nat e),
                       pi_positions = ps, pi_window_size = int w,
                       pi_count = int (length ps) \<rparr>)]"
        have "filter_patterns cfg ops w ?all1 groups = Inr all'"
          using Cons.prems grp le False Cons r by simp
        from Cons.IH[OF this] show ?thesis by simp
      qed
    qed
  qed
qed

lemma filter_patterns_first:
  assumes "min_repetitions cfg < 1" and "groups \<noteq> []"
  shows "filter_patterns cfg ops w [] groups \<noteq> Inr []"
proof
  assume a: "filter_patterns cfg ops w [] groups = Inr []"
  obtain h ps groups' where g: "groups = (h, ps) # groups'"
    using assms(2) by (cases groups) auto
  have t: "min_repetitions cfg \<le> int (length ps)" using assms(1) by simp
  show False
  proof (cases ps)
    case Nil
    then show ?thesis using a g t by simp
  next
    case (Cons r rest)
    obtain s e where r: "r = (s, e)" by (cases r)
    let ?all1 = "[(h, \<lparr> pi_sequence = py_slice ops (nat s) (nat e),
                     pi_positions = ps, pi_window_size = int w,
                     pi_count = int (length ps) \<rparr>)]"
    have "filter_patterns cfg ops w ?all1 groups' = Inr []"
      using a g t Cons r by simp
    from filter_patterns_grows[OF this] show ?thesis by simp
  qed
qed

lemma detect_loop_grows:
  "detect_loop cfg digest ops sizes all = Inr all' \<Longrightarrow> length all \<le> length all'"
proof (induction sizes arbitrary: all)
  case Nil
  then show ?case by simp
next
  case (Cons w sizes)
  then obtain all1 where
    a: "filter_patterns cfg ops w all (window_patterns digest ops w) = Inr all1"
       "detect_loop cfg digest ops sizes all1 = Inr all'"
    by (auto split: sum.splits)
  from filter_patterns_grows[OF a(1)] Cons.IH[OF a(2)] show ?case by simp
qed

lemma window_sizes_first:
  assumes "2 \<le> max_window_size cfg" and "4 \<le> length ops"
  shows "window_sizes cfg ops =
           2 # [3 ..< nat (min (max_window_size cfg + 1) (int (length ops) div 2 + 1))]"
proof -
  have "2 < nat (min (max_window_size cfg + 1) (int (length ops) div 2 + 1))"
    using assms by auto
  then show ?thesis
    unfolding window_sizes_def by (simp add: upt_conv_Cons)
qed

lemma detect_patterns_not_Nil:
  assumes "min_repetitions cfg < 1" and "2 \<le> max_window_size cfg" and "4 \<le> length ops"
  shows "detect_patterns cfg digest ops \<noteq> Inr []"
proof
  assume a: "detect_patterns cfg digest ops = Inr []"
  then obtain all where
    l: "detect_loop cfg digest ops (window_sizes cfg ops) [] = Inr all"
       "py_sorted_rev (\<lambda>x. (pi_count (snd x), pi_window_size (snd x))) all = []"
    by (auto simp: detect_patterns_def split: sum.splits)
  have "length (py_sorted_rev (\<lambda>x. (pi_count (snd x), pi_window_size (snd x))) all) = length all"
    by (simp add: py_sorted_rev_def)
  then have e: "all = []" using l(2) by simp
  from l(1) obtain all1 where
    f: "filter_patterns cfg ops 2 [] (window_patterns digest ops 2) = Inr all1"
       "detect_loop cfg digest ops
          [3 ..< nat (min (max_window_size cfg + 1) (int (length ops) div 2 + 1))] all1 = Inr all"
    unfolding window_sizes_first[OF assms(2,3)] by (auto split: sum.splits)
  have "window_patterns digest ops 2 \<noteq> []"
    by (rule window_patterns_not_Nil) (use assms(3) in simp)
  from filter_patterns_first[OF assms(1) this] f(1) have "all1 \<noteq> []" by auto
  then show False using detect_loop_grows[OF f(2)] e by simp
qed

lemma foldl_greedy_step_grows:
  "length (fst st) \<le> length (fst (foldl greedy_step st cs))"
proof (induction cs arbitrary: st)
  case Nil
  then show ?case by simp
next
  case (Cons c cs)
  have "length (fst st) \<le> length (fst (greedy_step st c))"
    by (simp add: greedy_step_def Let_def)
  also have "\<dots> \<le> length (fst (foldl greedy_step (greedy_step st c) cs))"
    by (rule Cons.IH)
  finally show ?case by simp
qed

lemma greedy_select_not_Nil: "cs \<noteq> [] \<Longrightarrow> fst (greedy_select cs) \<noteq> []"
proof -
  assume "cs \<noteq> []"
  then obtain c cs' where c: "cs = c # cs'" by (cases cs) auto
  have "fst (greedy_step ([], []) c) = [c]"
    by (simp add: greedy_step_def Let_def)
  then have "1 \<le> length (fst (foldl greedy_step (greedy_step ([], []) c) cs'))"
    using foldl_greedy_step_grows[of "greedy_step ([], []) c" cs'] by simp
  then show ?thesis unfolding greedy_select_def c by auto
qed

lemma final_macros_keeps_all:
  assumes "min_repetitions cfg < 1"
  shows "length (final_macros cfg d) = length d"
proof -
  have "filter (\<lambda>(hash_key, macro_info).
                  int (length (g_positions macro_info)) \<ge> min_repetitions cfg) d = d"
    using assms by (auto simp: filter_id_conv)
  then show ?thesis by (simp add: final_macros_def)
qed

lemma find_macros_not_Nil:
  assumes "min_repetitions cfg < 1" and ok: "patterns_ok cfg' ops pats" and ne: "pats \<noteq> []"
  shows "find_non_overlapping_macros cfg pats \<noteq> []"
proof -
  let ?cs = "sort_candidates (collect_candidates pats)"
  let ?sel = "fst (greedy_select ?cs)"
  obtain h info pats' where p: "pats = (h, info) # pats'"
    using ne by (cases pats) auto
  have "pattern_ok ops info" using ok p by (simp add: patterns_ok_def)
  then have "pi_positions info \<noteq> []" by (rule pattern_ok_positions(1))
  then have "collect_candidates pats \<noteq> []"
    unfolding p by (simp add: collect_candidates_Cons)
  then have "length ?cs \<noteq> 0"
    by (simp add: sort_candidates_def py_sorted_rev_def)
  then have "?cs \<noteq> []" by simp
  then have "?sel \<noteq> []" by (rule greedy_select_not_Nil)
  then have "c_hash ` set ?sel \<noteq> {}" by simp
  then have "fst ` set (group_by_hash ?sel) \<noteq> {}"
    using conjunct1[OF conjunct2[OF group_by_hash_char[of ?sel]]] by simp
  then have "group_by_hash ?sel \<noteq> []" by auto
  then have "length (final_macros cfg (group_by_hash ?sel)) \<noteq> 0"
    by (simp add: final_macros_keeps_all[OF assms(1)])
  then have "length (find_non_overlapping_macros cfg pats) \<noteq> 0"
    by (simp add: find_non_overlapping_macros_def Let_def py_sorted_rev_def)
  then show ?thesis by simp
qed

lemma detect_macros_not_Nil:
  assumes "min_repetitions cfg < 1" and "2 \<le> max_window_size cfg" and "4 \<le> length ops"
  shows "detect_macros cfg digest ops \<noteq> Inr []"
proof -
  obtain pats where p: "detect_patterns cfg digest ops = Inr pats" "patterns_ok cfg ops pats"
    using detect_patterns_ok[of cfg digest ops] by auto
  have "pats \<noteq> []" using detect_patterns_not_Nil[OF assms, of digest] p(1) by auto
  from find_macros_not_Nil[OF assms(1) p(2) this] show ?thesis
    using p(1) by (simp add: detect_macros_def)
qed


text \<open>
  Claim C9, as the code has it. Detection and selection never raise. With
  \<open>max_window_size < 2\<close> or a sequence shorter than 4 there is no window size to try, so no
  pattern and no macro is returned. A \<open>min_repetitions\<close> below 1 is not rejected: every
  group of windows then meets the threshold and no group of selected occurrences is
  dropped, so with \<open>max_window_size \<ge> 2\<close> and at least 4 operations the detected patterns
  and the macro list are both non-empty.
\<close>

theorem C9_no_patterns_without_window_sizes:
  "(\<exists>pats ms. detect_patterns cfg digest ops = Inr pats \<and>
                  detect_macros cfg digest ops = Inr ms) \<and>
   (max_window_size cfg < 2 \<or> length ops < 4 \<longrightarrow>
      detect_patterns cfg digest ops = Inr [] \<and> detect_macros cfg digest ops = Inr []) \<and>
   (min_repetitions cfg < 1 \<and> 2 \<le> max_window_size cfg \<and> 4 \<le> length ops \<longrightarrow>
      detect_patterns cfg digest ops \<noteq> Inr [] \<and> detect_macros cfg digest ops \<noteq> Inr [])"
proof -
  obtain pats where p: "detect_patterns cfg digest ops = Inr pats"
    using detect_patterns_ok[of cfg digest ops] by auto
  then have t: "\<exists>pats ms. detect_patterns cfg digest ops = Inr pats \<and>
                  detect_macros cfg digest ops = Inr ms"
    by (simp add: detect_macros_def)
  have e: "find_non_overlapping_macros cfg ([] :: ('a \<times> pattern_info) list) = []"
    by (simp add: find_non_overlapping_macros_def collect_candidates_def sort_candidates_def
        py_sorted_rev_def greedy_select_def group_by_hash_def final_macros_def)
  have "max_window_size cfg < 2 \<or> length ops < 4 \<Longrightarrow> window_sizes cfg ops = []"
    by (auto simp: window_sizes_def)
  then have u: "max_window_size cfg < 2 \<or> length ops < 4 \<longrightarrow>
      detect_patterns cfg digest ops = Inr [] \<and> detect_macros cfg digest ops = Inr []"
    by (simp add: detect_patterns_def detect_macros_def py_sorted_rev_def e)
  have v: "min_repetitions cfg < 1 \<and> 2 \<le> max_window_size cfg \<and> 4 \<le> length ops \<longrightarrow>
      detect_patterns cfg digest ops \<noteq> Inr [] \<and> detect_macros cfg digest ops \<noteq> Inr []"
    using detect_patterns_not_Nil[of cfg ops digest] detect_macros_not_Nil[of cfg ops digest]
    by simp
  show ?thesis using t u v by (intro conjI)
qed

theorem C9_no_patterns_without_window_sizes_witness:
  "length (take 3 example_ops) < 4 \<and>
   detect_patterns example_cfg (\<lambda>n. n) (take 3 example_ops) = Inr [] \<and>
   detect_macros example_cfg (\<lambda>n. n) (take 3 example_ops) = Inr [] \<and>
   min_repetitions \<lparr> min_repetitions = 0, max_window_size = 8 \<rparr> < 1 \<and>
   2 \<le> max_window_size \<lparr> min_repetitions = 0, max_window_size = 8 \<rparr> \<and>
   4 \<le> length (take 4 example_ops) \<and>
   detect_macros \<lparr> min_repetitions = 0, max_window_size = 8 \<rparr> (\<lambda>n. n) (take 4 example_ops)
     \<noteq> Inr []"
proof -
  have a: "length (take 3 example_ops) < 4" by simp
  have b: "min_repetitions \<lparr> min_repetitions = 0, max_window_size = 8 \<rparr> < 1"
      "2 \<le> max_window_size \<lparr> min_repetitions = 0, max_window_size = 8 \<rparr>"
    by simp_all
  have c: "4 \<le> length (take 4 example_ops)" by (simp add: example_ops_def)
  have "detect_patterns example_cfg (\<lambda>n. n) (take 3 example_ops) = Inr [] \<and>
        detect_macros example_cfg (\<lambda>n. n) (take 3 example_ops) = Inr []"
    using C9_no_patterns_without_window_sizes[of example_cfg "\<lambda>n. n" "take 3 example_ops"] a
    by simp
  moreover have
    "detect_macros \<lparr> min_repetitions = 0, max_window_size = 8 \<rparr> (\<lambda>n. n) (take 4 example_ops)
       \<noteq> Inr []"
    using C9_no_patterns_without_window_sizes[of
        "\<lparr> min_repetitions = 0, max_window_size = 8 \<rparr>" "\<lambda>n. n" "take 4 example_ops"] b c
    by blast
  ultimately show ?thesis using a b c by (intro conjI) simp_all
qed

theorem C9_min_repetitions_counterexample:
  "min_repetitions \<lparr> min_repetitions = 0, max_window_size = 8 \<rparr> < 1 \<and>
   detect_macros \<lparr> min_repetitions = 0, max_window_size = 8 \<rparr> (\<lambda>n. n)
     [(''rz'', [''1''], [PFloat ''0.5'']), (''h'', [''0''], []), (''cx'', [''0'', ''1''], []),
      (''rz'', [''1''], [PFloat ''0.5''])]
   = Inr [\<lparr> m_hash = [(''rz'', [''1''], [PFloat ''0.5'']), (''h'', [''0''], [])],
            m_sequence = [(''rz'', [''1''], [PFloat ''0.5'']), (''h'', [''0''], [])],
            m_positions = [(0, 2)], m_count = 1, m_window_size = 2 \<rparr>,
          \<lparr> m_hash = [(''cx'', [''0'', ''1''], []), (''rz'', [''1''], [PFloat ''0.5''])],
            m_sequence = [(''cx'', [''0'', ''1''], []), (''rz'', [''1''], [PFloat ''0.5''])],
            m_positions = [(2, 4)], m_count = 1, m_window_size = 2 \<rparr>]"
  by code_simp

section \<open>Properties of the graph builder\<close>

subsection \<open>Decimal strings\<close>




subsection \<open>The init nodes\<close>





subsection \<open>One step of the layer loop\<close>



lemma foldl_max_ge: "x \<in> set (l # ls) \<Longrightarrow> x \<le> foldl max (l :: int) ls"
proof (induction ls arbitrary: l x)
  case Nil then show ?case by simp
next
  case (Cons a ls)
  have m: "max l a \<le> foldl max (max l a) ls" by (rule Cons.IH) simp
  have "x = l \<or> x = a \<or> x \<in> set ls" using Cons.prems by auto
  then show ?case
  proof (elim disjE)
    assume "x = l" then show ?thesis using m by simp
  next
    assume "x = a" then show ?thesis using m by simp
  next
    assume "x \<in> set ls"
    then have "x \<le> foldl max (max l a) ls" by (intro Cons.IH) simp
    then show ?thesis by simp
  qed
qed

lemma foldl_max_mem: "foldl max (l :: int) ls \<in> set (l # ls)"
proof (induction ls arbitrary: l)
  case Nil then show ?case by simp
next
  case (Cons a ls)
  show ?case using Cons.IH[of "max l a"] by (auto simp: max_def split: if_splits)
qed

lemma foldl_max_Max: "foldl max (l :: int) ls = Max (set (l # ls))"
proof (rule sym, rule Max_eqI)
  show "finite (set (l # ls))" by simp
  show "\<And>y. y \<in> set (l # ls) \<Longrightarrow> y \<le> foldl max l ls" by (rule foldl_max_ge)
  show "foldl max l ls \<in> set (l # ls)" by (rule foldl_max_mem)
qed





subsection \<open>The end nodes\<close>




subsection \<open>Init and end nodes of the graph\<close>







text \<open>
  Claim C7, as the code has it. The sample input states one macro of count 2 and window
  size 2 at positions (5,7) and (7,9), and a circuit depth of 12. From it
  \<open>convert_to_app_circuit_format\<close> builds 21 nodes and 24 edges: the init nodes
  \<open>q_start_0\<close>, \<open>q_start_1\<close>, \<open>q_start_2\<close> at layer \<open>-1\<close>, 15 gate nodes whose largest layer
  is 11, and the end nodes \<open>q_end_0\<close>, \<open>q_end_1\<close>, \<open>q_end_2\<close> at layer 12. \<open>parse_circuit_dag\<close>
  leaves out the four gates of the two macro items: it builds 17 nodes and 18 edges, with
  the end nodes at layer 9. Both report two macro instances, on \<open>gate_5\<close>, \<open>gate_6\<close> and on
  \<open>gate_7\<close>, \<open>gate_8\<close>.
\<close>

theorem C7_sample_graph:
  "num_macros (statistics input_data) = 1 \<and>
   circuit_depth (statistics input_data) = 12 \<and>
   num_qubits (statistics input_data) = 3 \<and>
   length (dag_flat input_data) = 15 \<and>
   map (\<lambda>m. (md_label m, md_count m, md_window_size m, md_positions m)) (macros input_data)
     = [(''EntanglingLayer(2<->0)'', 2, 2, [(5, 7), (7, 9)])] \<and>
   (case convert_to_app_circuit_format input_data of
      Inl err \<Rightarrow> False
    | Inr g \<Rightarrow>
        id_layers Init g = [(''q_start_0'', - 1), (''q_start_1'', - 1), (''q_start_2'', - 1)] \<and>
        id_layers Gate g =
          [(''gate_0'', 0), (''gate_1'', 1), (''gate_2'', 2), (''gate_3'', 3), (''gate_4'', 4),
           (''gate_5'', 4), (''gate_6'', 5), (''gate_7'', 6), (''gate_8'', 7), (''gate_9'', 8),
           (''gate_10'', 9), (''gate_11'', 10), (''gate_12'', 11), (''gate_13'', 11),
           (''gate_14'', 8)] \<and>
        id_layers End g = [(''q_end_0'', 12), (''q_end_1'', 12), (''q_end_2'', 12)] \<and>
        length (nodes g) = 21 \<and> length (edges g) = 24 \<and>
        map (\<lambda>m. (mi_name m, map node_id_str (mi_gate_ids m))) (graph_macros g) =
          [(''EntanglingLayer(2<->0)'', [''gate_5'', ''gate_6'']),
           (''EntanglingLayer(2<->0)'', [''gate_7'', ''gate_8''])]) \<and>
   (case parse_circuit_dag input_data of
      Inl err \<Rightarrow> False
    | Inr g \<Rightarrow>
        id_layers Init g = [(''q_start_0'', - 1), (''q_start_1'', - 1), (''q_start_2'', - 1)] \<and>
        id_layers Gate g =
          [(''gate_0'', 0), (''gate_1'', 1), (''gate_2'', 2), (''gate_3'', 3), (''gate_4'', 4),
           (''gate_9'', 5), (''gate_10'', 6), (''gate_11'', 7), (''gate_12'', 8),
           (''gate_13'', 8), (''gate_14'', 4)] \<and>
        id_layers End g = [(''q_end_0'', 9), (''q_end_1'', 9), (''q_end_2'', 9)] \<and>
        length (nodes g) = 17 \<and> length (edges g) = 18 \<and>
        map (\<lambda>m. (mi_name m, map node_id_str (mi_gate_ids m))) (graph_macros g) =
          [(''EntanglingLayer(2<->0)'', [''gate_5'', ''gate_6'']),
           (''EntanglingLayer(2<->0)'', [''gate_7'', ''gate_8''])])"
  by code_simp

theorem C7_end_layer_counterexample:
  "circuit_depth (statistics input_data) + 1 = 13 \<and>
   (case convert_to_app_circuit_format input_data of
      Inl err \<Rightarrow> []
    | Inr g \<Rightarrow> map n_layer (filter (\<lambda>n. n_type n = End) (nodes g))) = [12, 12, 12] \<and>
   (case parse_circuit_dag input_data of
      Inl err \<Rightarrow> []
    | Inr g \<Rightarrow> map n_layer (filter (\<lambda>n. n_type n = End) (nodes g))) = [9, 9, 9] \<and>
   (case parse_circuit_dag input_data of Inl err \<Rightarrow> 0 | Inr g \<Rightarrow> length (nodes g)) = 17"
  by code_simp

subsection \<open>The layer of a node identifier\<close>

















subsection \<open>The predecessors of a gate node\<close>






subsection \<open>The invariant of the layer loop\<close>




subsection \<open>The edges to the end nodes\<close>




subsection \<open>The graph is layered\<close>






section \<open>Properties of the labeler\<close>

lemma set_py_unique: "set (py_unique xs) = set xs"
  by (simp add: py_unique_def)

lemma map_of_Counter:
  "map_of (Counter xs) k = (if k \<in> set xs then Some (count_list xs k) else None)"
proof -
  have "map_of (map (\<lambda>k. (k, count_list xs k)) ks) k =
          (if k \<in> set ks then Some (count_list xs k) else None)" for ks
    by (induction ks) auto
  then show ?thesis by (simp add: Counter_def set_py_unique)
qed

lemma dict_get_Counter: "dict_get (Counter xs) k 0 = count_list xs k"
  by (simp add: dict_get_def map_of_Counter count_list_0_iff)

lemma dict_in_Counter: "dict_in k (Counter xs) = (k \<in> set xs)"
  by (simp add: dict_in_def map_of_Counter)

lemma count_list_pos: "(0 < count_list xs k) = (k \<in> set xs)"
  using count_list_0_iff[of xs k] by auto

lemma phase_count_names:
  "count_list ns ''cp'' + count_list ns ''crz'' + count_list ns ''cu1'' + count_list ns ''cz'' +
   count_list ns ''p''
   = length (filter (\<lambda>g. g \<in> set [''cp'', ''crz'', ''cu1'', ''cz'', ''p'']) ns)"
  by (induction ns) auto

lemma phase_count_sum:
  "sum_list (map (\<lambda>g. dict_get (Counter (map gate_name sequence)) g 0)
               [''cp'', ''crz'', ''cu1'', ''cz'', ''p''])
   = phase_count sequence"
proof -
  have "length (filter (\<lambda>g. g \<in> set [''cp'', ''crz'', ''cu1'', ''cz'', ''p''])
                  (map gate_name sequence)) = phase_count sequence"
    unfolding phase_count_def by (induction sequence) simp_all
  then show ?thesis
    using phase_count_names[of "map gate_name sequence"] by (simp add: dict_get_Counter)
qed

lemma early_h_take:
  "list_ex (\<lambda>i. ns ! i = x) [0 ..< min 3 (length ns)] = (x \<in> set (take 3 ns))"
  by (auto simp: list_ex_iff in_set_conv_nth)

lemma qft_rule_fires:
  assumes h: "''h'' \<in> set (map gate_name sequence)"
    and r: "3 * length sequence < 10 * phase_count sequence"
    and e: "has_early_h sequence"
    and q: "2 \<le> a_num_qubits (analyze_gate_sequence sequence)"
  shows "qft_rule sequence (analyze_gate_sequence sequence) =
           Some (''QFT Circuit Segment'' @
                 (if ''swap'' \<in> set (map gate_name sequence) then '' (with SWAP Layer)'' else ''''))"
proof -
  let ?a = "analyze_gate_sequence sequence"
  let ?names = "map gate_name sequence"
  have gc: "gate_counts ?a = Counter ?names" by (simp add: analyze_gate_sequence_def Let_def)
  have h1: "dict_in ''h'' (Counter ?names)" using h by (simp only: dict_in_Counter)
  have h2: "1 \<le> dict_get (Counter ?names) ''h'' 0"
    using h count_list_pos[of ?names "''h''"] by (simp only: dict_get_Counter) simp
  have p: "0 < phase_count sequence" using r by simp
  have "phase_count sequence \<le> length sequence" by (simp add: phase_count_def)
  then have n: "0 < length sequence" using p by linarith
  have sw: "(0 < dict_get (Counter ?names) ''swap'' 0) = (''swap'' \<in> set ?names)"
    by (simp only: dict_get_Counter count_list_pos)
  have eh: "list_ex (\<lambda>i. ?names ! i = ''h'') [0 ..< min 3 (length ?names)]"
    using e unfolding has_early_h_def by (simp only: early_h_take)
  show ?thesis
    unfolding qft_rule_def Let_def gc phase_count_sum
    using h1 h2 p n sw eh q r by simp
qed

text \<open>
  Claim C8, as the code has it. The first rule of \<open>match_known_pattern\<close> is guarded by
  \<open>num_qubits >= 2\<close> as well: a sequence that contains a Hadamard, in which more than three
  tenths of the gates are phase-like, in which a Hadamard is among the first three gates,
  and that acts on at least two distinct qubits is labelled \<open>QFT Circuit Segment\<close>, with
  \<open>(with SWAP Layer)\<close> appended exactly when it contains a swap gate.
\<close>

theorem C8_qft_label:
  "''h'' \<in> set (map gate_name sequence) \<Longrightarrow>
   3 * length sequence < 10 * phase_count sequence \<Longrightarrow>
   has_early_h sequence \<Longrightarrow>
   2 \<le> a_num_qubits (analyze_gate_sequence sequence) \<Longrightarrow>
   match_known_pattern sequence (analyze_gate_sequence sequence) =
     Some (''QFT Circuit Segment'' @
           (if ''swap'' \<in> set (map gate_name sequence) then '' (with SWAP Layer)'' else '''')) \<and>
   label_macro sequence =
     ''QFT Circuit Segment'' @
     (if ''swap'' \<in> set (map gate_name sequence) then '' (with SWAP Layer)'' else '''')"
proof -
  assume a: "''h'' \<in> set (map gate_name sequence)"
    "3 * length sequence < 10 * phase_count sequence"
    "has_early_h sequence"
    "2 \<le> a_num_qubits (analyze_gate_sequence sequence)"
  note f = qft_rule_fires[OF a]
  have m: "match_known_pattern sequence (analyze_gate_sequence sequence) =
     Some (''QFT Circuit Segment'' @
           (if ''swap'' \<in> set (map gate_name sequence) then '' (with SWAP Layer)'' else ''''))"
    unfolding match_known_pattern_def f by simp
  have "label_macro sequence =
     ''QFT Circuit Segment'' @
     (if ''swap'' \<in> set (map gate_name sequence) then '' (with SWAP Layer)'' else '''')"
    unfolding label_macro_def Let_def m by simp
  then show ?thesis using m by (intro conjI)
qed

theorem C8_qft_label_witness:
  "''h'' \<in> set (map gate_name qft_example) \<and>
   3 * length qft_example < 10 * phase_count qft_example \<and>
   has_early_h qft_example \<and>
   2 \<le> a_num_qubits (analyze_gate_sequence qft_example) \<and>
   ''swap'' \<notin> set (map gate_name qft_example) \<and>
   label_macro qft_example = ''QFT Circuit Segment''"
proof -
  have a: "''h'' \<in> set (map gate_name qft_example)" by code_simp
  have b: "3 * length qft_example < 10 * phase_count qft_example" by code_simp
  have c: "has_early_h qft_example" by code_simp
  have d: "2 \<le> a_num_qubits (analyze_gate_sequence qft_example)" by code_simp
  have e: "''swap'' \<notin> set (map gate_name qft_example)" by code_simp
  have "label_macro qft_example = ''QFT Circuit Segment''"
    using C8_qft_label[OF a b c d] e by simp
  then show ?thesis using a b c d e by (intro conjI)
qed

theorem C8_single_qubit_counterexample:
  "''h'' \<in> set (map gate_name single_qubit_example) \<and>
   3 * length single_qubit_example < 10 * phase_count single_qubit_example \<and>
   has_early_h single_qubit_example \<and>
   a_num_qubits (analyze_gate_sequence single_qubit_example) = 1 \<and>
   match_known_pattern single_qubit_example (analyze_gate_sequence single_qubit_example) = None \<and>
   label_macro single_qubit_example = ''Hadamard Block''"
  by code_simp

end
